theory Spec2Isabelle
  imports Main "HOL-Library.Multiset"
begin

section \<open>Klondike Solitaire: the rule and move engine of \<^verbatim>\<open>solitaire.py\<close>\<close>

text \<open>
  The development embeds the game engine of \<^verbatim>\<open>src/solitaire.py\<close>: cards, the deck, the
  piles with their legality rules, the deal, stock draw and recycle, drag and drop,
  double-click and auto-complete moves, scoring, the snapshot history and undo, and win
  detection.

  Conventions of the embedding.
  \<^item> A pile is the Python list \<^verbatim>\<open>cards\<close>, bottom first: the top card is the last element.
  \<^item> A card is the value \<open>(suit, rank, face_up)\<close>. Screen coordinates and rectangles are
    presentation and are left out; every place where the source asks pygame whether a
    point lies in a rectangle reads a field of the abstract \<open>pointer\<close> instead.
  \<^item> Python compares cards by object identity (\<^verbatim>\<open>card in self.cards\<close>,
    \<^verbatim>\<open>self.cards.index(card)\<close>); the embedding compares the values. The two agree as long
    as the cards of a pile are pairwise different, as the 52 cards of a deck are.
  \<^item> \<^verbatim>\<open>setup_piles\<close> builds four foundations and seven tableaus once and for all; they are
    indexed by the types \<open>fidx\<close> and \<open>tidx\<close>, listed in the order of the Python lists.
  \<^item> \<^verbatim>\<open>random.shuffle\<close> is not computed: \<open>new_game\<close> receives the shuffled deck.
\<close>

subsection \<open>Constants\<close>

definition SCORE_TO_FOUNDATION :: int where "SCORE_TO_FOUNDATION = 10"
definition SCORE_REVEAL_CARD :: int where "SCORE_REVEAL_CARD = 5"
definition SCORE_WASTE_TO_TABLEAU :: int where "SCORE_WASTE_TO_TABLEAU = 5"
definition SCORE_FOUNDATION_TO_TABLEAU :: int where "SCORE_FOUNDATION_TO_TABLEAU = - 15"
definition SCORE_RECYCLE_WASTE :: int where "SCORE_RECYCLE_WASTE = - 20"

datatype suit = Hearts | Diamonds | Clubs | Spades

datatype rank = Ace | Two | Three | Four | Five | Six | Seven | Eight | Nine | Ten
  | Jack | Queen | King

datatype color = Red | Black

definition SUITS :: "suit list" where
  "SUITS = [Hearts, Diamonds, Clubs, Spades]"

definition RANKS :: "rank list" where
  "RANKS = [Ace, Two, Three, Four, Five, Six, Seven, Eight, Nine, Ten, Jack, Queen, King]"

fun RANK_VALUES :: "rank \<Rightarrow> int" where
  "RANK_VALUES Ace = 1"
| "RANK_VALUES Two = 2"
| "RANK_VALUES Three = 3"
| "RANK_VALUES Four = 4"
| "RANK_VALUES Five = 5"
| "RANK_VALUES Six = 6"
| "RANK_VALUES Seven = 7"
| "RANK_VALUES Eight = 8"
| "RANK_VALUES Nine = 9"
| "RANK_VALUES Ten = 10"
| "RANK_VALUES Jack = 11"
| "RANK_VALUES Queen = 12"
| "RANK_VALUES King = 13"

subsection \<open>Card\<close>

record card =
  suit :: suit
  rank :: rank
  face_up :: bool

text \<open>\<^verbatim>\<open>Card.__init__\<close>: a new card lies face down.\<close>

definition Card :: "suit \<Rightarrow> rank \<Rightarrow> card" where
  "Card s r = \<lparr>suit = s, rank = r, face_up = False\<rparr>"

definition card_color :: "card \<Rightarrow> color" where
  "card_color c = (if suit c \<in> {Hearts, Diamonds} then Red else Black)"

definition card_value :: "card \<Rightarrow> int" where
  "card_value c = RANK_VALUES (rank c)"

subsection \<open>Deck\<close>

definition create_deck :: "card list" where
  "create_deck = concat (map (\<lambda>s. map (\<lambda>r. Card s r) RANKS) SUITS)"

text \<open>\<^verbatim>\<open>Deck.deal\<close> pops the last card, or returns \<^verbatim>\<open>None\<close> on an empty deck.\<close>

definition deal :: "card list \<Rightarrow> card option \<times> card list" where
  "deal cs = (if cs \<noteq> [] then (Some (last cs), butlast cs) else (None, cs))"

text \<open>What \<^verbatim>\<open>random.shuffle\<close> may leave in the deck: any arrangement of the 52 cards.\<close>

definition shuffled :: "card list \<Rightarrow> bool" where
  "shuffled deck \<longleftrightarrow> mset deck = mset create_deck"

subsection \<open>Pile\<close>

definition add_card :: "card list \<Rightarrow> card \<Rightarrow> card list" where
  "add_card cs c = cs @ [c]"

definition add_cards :: "card list \<Rightarrow> card list \<Rightarrow> card list" where
  "add_cards cs ds = cs @ ds"

text \<open>\<^verbatim>\<open>remove_card\<close> returns the popped card (if any) and the pile that is left.\<close>

definition remove_card :: "card list \<Rightarrow> card option \<times> card list" where
  "remove_card cs = (if cs \<noteq> [] then (Some (last cs), butlast cs) else (None, cs))"

text \<open>\<^verbatim>\<open>list.index\<close>, used only under the guard \<^verbatim>\<open>card in self.cards\<close>.\<close>

fun index_of :: "card list \<Rightarrow> card \<Rightarrow> nat" where
  "index_of [] c = 0"
| "index_of (x # xs) c = (if x = c then 0 else Suc (index_of xs c))"

text \<open>\<^verbatim>\<open>remove_cards_from\<close> returns the removed run and the pile that is left.\<close>

definition remove_cards_from :: "card list \<Rightarrow> card \<Rightarrow> card list \<times> card list" where
  "remove_cards_from cs c =
     (if c \<in> set cs
      then (let index = index_of cs c in (drop index cs, take index cs))
      else ([], cs))"

definition top_card :: "card list \<Rightarrow> card option" where
  "top_card cs = (if cs \<noteq> [] then Some (last cs) else None)"

subsection \<open>TableauPile\<close>

definition tableau_can_add :: "card list \<Rightarrow> card \<Rightarrow> bool" where
  "tableau_can_add cs c =
     (if cs = [] then rank c = King
      else (let top = last cs in
        if \<not> face_up top then False
        else if card_color c = card_color top then False
        else if card_value c \<noteq> card_value top - 1 then False
        else True))"

definition flip_top_card :: "card list \<Rightarrow> card list" where
  "flip_top_card cs =
     (if cs \<noteq> [] \<and> \<not> face_up (last cs)
      then butlast cs @ [(last cs)\<lparr>face_up := True\<rparr>]
      else cs)"

subsection \<open>FoundationPile\<close>

text \<open>A foundation carries the suit it was constructed with (\<^verbatim>\<open>suit=None\<close> by default).\<close>

record foundation_pile =
  cards :: "card list"
  fsuit :: "suit option"

definition foundation_can_add :: "foundation_pile \<Rightarrow> card \<Rightarrow> bool" where
  "foundation_can_add f c =
     (if cards f = [] then rank c = Ace
      else (let top = last (cards f) in
        if suit c \<noteq> suit top then False
        else if card_value c \<noteq> card_value top + 1 then False
        else True))"

subsection \<open>The piles of a game\<close>

text \<open>
  \<^verbatim>\<open>setup_piles\<close> creates the stock, the waste, four foundations (one per entry of
  \<^verbatim>\<open>SUITS\<close>) and seven tableaus. \<open>fidxs\<close> and \<open>tidxs\<close> list the indices in the order in
  which the source iterates over \<^verbatim>\<open>self.foundations\<close> and \<^verbatim>\<open>self.tableaus\<close>.
\<close>

datatype fidx = F0 | F1 | F2 | F3

datatype tidx = T0 | T1 | T2 | T3 | T4 | T5 | T6

definition fidxs :: "fidx list" where
  "fidxs = [F0, F1, F2, F3]"

definition tidxs :: "tidx list" where
  "tidxs = [T0, T1, T2, T3, T4, T5, T6]"

fun fnum :: "fidx \<Rightarrow> nat" where
  "fnum F0 = 0" | "fnum F1 = 1" | "fnum F2 = 2" | "fnum F3 = 3"

fun tnum :: "tidx \<Rightarrow> nat" where
  "tnum T0 = 0" | "tnum T1 = 1" | "tnum T2 = 2" | "tnum T3 = 3"
| "tnum T4 = 4" | "tnum T5 = 5" | "tnum T6 = 6"

text \<open>A reference to one of the pile objects; \<^verbatim>\<open>isinstance\<close> is a case split on it.\<close>

datatype pile_ref = StockPile | WastePile | FoundationPile fidx | TableauPile tidx

fun is_tableau :: "pile_ref \<Rightarrow> bool" where
  "is_tableau (TableauPile j) = True"
| "is_tableau p = False"

fun is_foundation :: "pile_ref \<Rightarrow> bool" where
  "is_foundation (FoundationPile i) = True"
| "is_foundation p = False"

subsection \<open>Game state\<close>

type_synonym card_tuple = "suit \<times> rank \<times> bool"

text \<open>The dictionary built by \<^verbatim>\<open>save_state\<close>.\<close>

record snapshot =
  snap_score :: int
  snap_stock :: "card_tuple list"
  snap_waste :: "card_tuple list"
  snap_foundations :: "fidx \<Rightarrow> card_tuple list"
  snap_tableaus :: "tidx \<Rightarrow> card_tuple list"

record game =
  stock :: "card list"
  waste :: "card list"
  foundations :: "fidx \<Rightarrow> foundation_pile"
  tableaus :: "tidx \<Rightarrow> card list"
  score :: int
  won :: bool
  move_history :: "snapshot list"
  dragging :: bool
  dragged_cards :: "card list"
  drag_source :: "pile_ref option"

text \<open>The state \<^verbatim>\<open>Solitaire.__init__\<close> has built when it calls \<^verbatim>\<open>new_game\<close>.\<close>

definition setup_foundation :: "fidx \<Rightarrow> foundation_pile" where
  "setup_foundation i = \<lparr>cards = [], fsuit = Some (SUITS ! fnum i)\<rparr>"

definition initial :: game where
  "initial = \<lparr>stock = [], waste = [], foundations = setup_foundation,
     tableaus = (\<lambda>j. []), score = 0, won = False, move_history = [],
     dragging = False, dragged_cards = [], drag_source = None\<rparr>"

fun pile_cards :: "game \<Rightarrow> pile_ref \<Rightarrow> card list" where
  "pile_cards s StockPile = stock s"
| "pile_cards s WastePile = waste s"
| "pile_cards s (FoundationPile i) = cards (foundations s i)"
| "pile_cards s (TableauPile j) = tableaus s j"

fun set_pile_cards :: "game \<Rightarrow> pile_ref \<Rightarrow> card list \<Rightarrow> game" where
  "set_pile_cards s StockPile cs = s\<lparr>stock := cs\<rparr>"
| "set_pile_cards s WastePile cs = s\<lparr>waste := cs\<rparr>"
| "set_pile_cards s (FoundationPile i) cs =
     s\<lparr>foundations := (foundations s)(i := (foundations s i)\<lparr>cards := cs\<rparr>)\<rparr>"
| "set_pile_cards s (TableauPile j) cs = s\<lparr>tableaus := (tableaus s)(j := cs)\<rparr>"

subsection \<open>New game\<close>

text \<open>
  The order of the double loop \<^verbatim>\<open>for i in range(7): for j in range(i, 7)\<close>: round \<open>i\<close>
  deals one card to each tableau \<open>j\<close> from \<open>i\<close> on.
\<close>

definition deal_order :: "(tidx \<times> tidx) list" where
  "deal_order = concat (map (\<lambda>i. map (\<lambda>j. (i, j)) (filter (\<lambda>j. tnum i \<le> tnum j) tidxs)) tidxs)"

text \<open>
  Dealing to the tableaus. \<^verbatim>\<open>deck.deal()\<close> yields \<^verbatim>\<open>None\<close> on an empty deck and the
  assignment \<^verbatim>\<open>card.face_up = (i == j)\<close> then raises: the result is \<open>None\<close>.
\<close>

fun deal_tableaus ::
  "(tidx \<times> tidx) list \<Rightarrow> card list \<Rightarrow> (tidx \<Rightarrow> card list)
     \<Rightarrow> (card list \<times> (tidx \<Rightarrow> card list)) option" where
  "deal_tableaus [] deck tabs = Some (deck, tabs)"
| "deal_tableaus ((i, j) # rest) deck tabs =
     (case deal deck of
        (None, deck') \<Rightarrow> None
      | (Some c, deck') \<Rightarrow>
          deal_tableaus rest deck' (tabs(j := add_card (tabs j) (c\<lparr>face_up := (i = j)\<rparr>))))"

text \<open>\<^verbatim>\<open>while deck.cards:\<close> the remaining cards go to the stock, face down.\<close>

function deal_stock :: "card list \<Rightarrow> card list \<Rightarrow> card list" where
  "deal_stock deck st =
     (if deck \<noteq> []
      then deal_stock (butlast deck) (add_card st ((last deck)\<lparr>face_up := False\<rparr>))
      else st)"
  by pat_completeness auto
termination
  by (relation "measure (\<lambda>(deck, st). length deck)") auto

definition new_game :: "game \<Rightarrow> card list \<Rightarrow> game option" where
  "new_game s deck =
     (let s1 = s\<lparr>won := False, score := 0, move_history := [],
                 stock := [], waste := [],
                 foundations := (\<lambda>i. (foundations s i)\<lparr>cards := []\<rparr>),
                 tableaus := (\<lambda>j. [])\<rparr>
      in case deal_tableaus deal_order deck (tableaus s1) of
           None \<Rightarrow> None
         | Some (deck', tabs) \<Rightarrow> Some (s1\<lparr>tableaus := tabs, stock := deal_stock deck' (stock s1)\<rparr>))"

subsection \<open>History and undo\<close>

definition card_tuple :: "card \<Rightarrow> card_tuple" where
  "card_tuple c = (suit c, rank c, face_up c)"

text \<open>Undo builds a fresh \<^verbatim>\<open>Card(suit, rank)\<close> and sets its \<^verbatim>\<open>face_up\<close>.\<close>

fun restore_card :: "card_tuple \<Rightarrow> card" where
  "restore_card (s, r, up) = (Card s r)\<lparr>face_up := up\<rparr>"

definition take_snapshot :: "game \<Rightarrow> snapshot" where
  "take_snapshot s =
     \<lparr>snap_score = score s,
      snap_stock = map card_tuple (stock s),
      snap_waste = map card_tuple (waste s),
      snap_foundations = (\<lambda>i. map card_tuple (cards (foundations s i))),
      snap_tableaus = (\<lambda>j. map card_tuple (tableaus s j))\<rparr>"

definition save_state :: "game \<Rightarrow> game" where
  "save_state s =
     (let history = move_history s @ [take_snapshot s]
      in s\<lparr>move_history := (if length history > 100 then tl history else history)\<rparr>)"

definition undo :: "game \<Rightarrow> bool \<times> game" where
  "undo s =
     (if move_history s = [] then (False, s)
      else (let state = last (move_history s)
            in (True,
                s\<lparr>move_history := butlast (move_history s),
                  score := snap_score state,
                  stock := map restore_card (snap_stock state),
                  waste := map restore_card (snap_waste state),
                  foundations :=
                    (\<lambda>i. (foundations s i)\<lparr>cards := map restore_card (snap_foundations state i)\<rparr>),
                  tableaus := (\<lambda>j. map restore_card (snap_tableaus state j)),
                  won := False\<rparr>)))"

subsection \<open>Score\<close>

definition add_score :: "game \<Rightarrow> int \<Rightarrow> game" where
  "add_score s points = s\<lparr>score := max 0 (score s + points)\<rparr>"

subsection \<open>Stock and waste\<close>

text \<open>The recycle loop \<^verbatim>\<open>while self.waste.cards:\<close>.\<close>

function recycle_waste :: "game \<Rightarrow> game" where
  "recycle_waste s =
     (if waste s \<noteq> []
      then recycle_waste
             (s\<lparr>waste := butlast (waste s),
                stock := add_card (stock s) ((last (waste s))\<lparr>face_up := False\<rparr>)\<rparr>)
      else s)"
  by pat_completeness auto
termination
  by (relation "measure (\<lambda>s. length (waste s))") auto

definition draw_card_from_stock :: "game \<Rightarrow> game" where
  "draw_card_from_stock s =
     (let s1 = save_state s
      in if stock s1 \<noteq> []
         then s1\<lparr>stock := butlast (stock s1),
                 waste := add_card (waste s1) ((last (stock s1))\<lparr>face_up := True\<rparr>)\<rparr>
         else if waste s1 \<noteq> []
         then recycle_waste (add_score s1 SCORE_RECYCLE_WASTE)
         else s1)"

subsection \<open>Win detection\<close>

definition all_foundations_full :: "game \<Rightarrow> bool" where
  "all_foundations_full s = list_all (\<lambda>i. length (cards (foundations s i)) = 13) fidxs"

definition check_win :: "game \<Rightarrow> game" where
  "check_win s = (if all_foundations_full s then s\<lparr>won := True\<rparr> else s)"

subsection \<open>The pointer\<close>

text \<open>
  A mouse position, as far as the engine looks at it: the pile \<^verbatim>\<open>get_pile_at(pos)\<close>
  returns, the indices of the cards of that pile whose rectangle contains the point
  (\<^verbatim>\<open>card.contains_point(pos)\<close>), and the foundations and tableaus whose enlarged drop
  rectangle contains the point (\<^verbatim>\<open>expanded_rect.collidepoint(pos)\<close> in
  \<^verbatim>\<open>find_drop_target\<close>).
\<close>

record pointer =
  pile_at :: "pile_ref option"
  on_card :: "nat \<Rightarrow> bool"
  over_foundation :: "fidx \<Rightarrow> bool"
  over_tableau :: "tidx \<Rightarrow> bool"

text \<open>\<^verbatim>\<open>get_card_at\<close>: the topmost face-up card under the point.\<close>

definition get_card_at :: "card list \<Rightarrow> pointer \<Rightarrow> card option" where
  "get_card_at cs pos =
     map_option (\<lambda>k. cs ! k)
       (find (\<lambda>k. on_card pos k \<and> face_up (cs ! k)) (rev [0..<length cs]))"

subsection \<open>Drag and drop\<close>

text \<open>
  \<^verbatim>\<open>start_drag\<close>. The source takes the top card of a waste or foundation pile without
  looking whether there is one; \<^verbatim>\<open>[None]\<close> would make the next line raise, which is
  the result \<open>None\<close> here.
\<close>

definition begin_drag :: "game \<Rightarrow> pile_ref \<Rightarrow> card list \<Rightarrow> game" where
  "begin_drag s pile ds =
     (let s1 = s\<lparr>dragged_cards := ds\<rparr>
      in if ds \<noteq> [] then s1\<lparr>dragging := True, drag_source := Some pile\<rparr> else s1)"

fun start_drag :: "game \<Rightarrow> pile_ref \<Rightarrow> card \<Rightarrow> game option" where
  "start_drag s WastePile c =
     (case top_card (waste s) of
        None \<Rightarrow> None
      | Some t \<Rightarrow> Some (begin_drag s WastePile [t]))"
| "start_drag s (FoundationPile i) c =
     (case top_card (cards (foundations s i)) of
        None \<Rightarrow> None
      | Some t \<Rightarrow> Some (begin_drag s (FoundationPile i) [t]))"
| "start_drag s (TableauPile j) c =
     (let (removed, rest) = remove_cards_from (tableaus s j) c;
          s1 = s\<lparr>tableaus := (tableaus s)(j := add_cards rest removed)\<rparr>
      in Some (begin_drag s1 (TableauPile j) removed))"
| "start_drag s StockPile c = Some s"

text \<open>\<^verbatim>\<open>find_drop_target\<close>: foundations first (single cards only), then tableaus.\<close>

definition find_drop_target :: "game \<Rightarrow> pointer \<Rightarrow> pile_ref option" where
  "find_drop_target s pos =
     (case dragged_cards s of
        [] \<Rightarrow> None
      | first_card # others \<Rightarrow>
          (case (if length (dragged_cards s) = 1
                 then find (\<lambda>i. over_foundation pos i
                               \<and> foundation_can_add (foundations s i) first_card) fidxs
                 else None) of
             Some i \<Rightarrow> Some (FoundationPile i)
           | None \<Rightarrow>
               (case find (\<lambda>j. over_tableau pos j
                              \<and> tableau_can_add (tableaus s j) first_card) tidxs of
                  Some j \<Rightarrow> Some (TableauPile j)
                | None \<Rightarrow> None)))"

text \<open>\<^verbatim>\<open>for _ in self.dragged_cards: self.drag_source.remove_card()\<close>\<close>

fun remove_cards :: "nat \<Rightarrow> card list \<Rightarrow> card list" where
  "remove_cards 0 cs = cs"
| "remove_cards (Suc n) cs = remove_cards n (snd (remove_card cs))"

text \<open>The valid-drop branch of \<^verbatim>\<open>handle_drop\<close>, after \<^verbatim>\<open>save_state\<close>, in four steps.\<close>

definition take_from_source :: "game \<Rightarrow> pile_ref \<Rightarrow> card \<Rightarrow> game" where
  "take_from_source s source first_card =
     (case source of
        TableauPile j \<Rightarrow>
          s\<lparr>tableaus := (tableaus s)(j := snd (remove_cards_from (tableaus s j) first_card))\<rparr>
      | _ \<Rightarrow> set_pile_cards s source
               (remove_cards (length (dragged_cards s)) (pile_cards s source)))"

definition put_on_target :: "game \<Rightarrow> pile_ref \<Rightarrow> game" where
  "put_on_target s target =
     set_pile_cards s target (add_cards (pile_cards s target) (dragged_cards s))"

definition score_drop :: "game \<Rightarrow> pile_ref \<Rightarrow> pile_ref \<Rightarrow> game" where
  "score_drop s source target =
     (if is_foundation target
      then add_score s (SCORE_TO_FOUNDATION * int (length (dragged_cards s)))
      else if is_tableau target
      then (if source = WastePile then add_score s SCORE_WASTE_TO_TABLEAU
            else if is_foundation source then add_score s SCORE_FOUNDATION_TO_TABLEAU
            else s)
      else s)"

definition reveal_source :: "game \<Rightarrow> pile_ref \<Rightarrow> game" where
  "reveal_source s source =
     (case source of
        TableauPile j \<Rightarrow>
          (if tableaus s j \<noteq> [] \<and> \<not> face_up (last (tableaus s j))
           then add_score (s\<lparr>tableaus := (tableaus s)(j := flip_top_card (tableaus s j))\<rparr>)
                  SCORE_REVEAL_CARD
           else s)
      | _ \<Rightarrow> s)"

definition end_drag :: "game \<Rightarrow> game" where
  "end_drag s = check_win (s\<lparr>dragged_cards := [], drag_source := None\<rparr>)"

text \<open>
  \<^verbatim>\<open>handle_drop\<close>. With \<^verbatim>\<open>dragging\<close> set and no \<^verbatim>\<open>drag_source\<close> both branches call a
  method of \<^verbatim>\<open>None\<close> and raise: the result is \<open>None\<close>.
\<close>

definition handle_drop :: "game \<Rightarrow> pointer \<Rightarrow> game option" where
  "handle_drop s pos =
     (if \<not> dragging s then Some s
      else (let s1 = s\<lparr>dragging := False\<rparr>;
                drop_target = find_drop_target s1 pos
            in case drag_source s1 of
                 None \<Rightarrow> None
               | Some source \<Rightarrow>
                   (case drop_target of
                      None \<Rightarrow> Some (end_drag s1)
                    | Some target \<Rightarrow>
                        if target \<noteq> source
                        then (case dragged_cards s1 of
                                [] \<Rightarrow> None
                              | first_card # others \<Rightarrow>
                                  Some (end_drag
                                    (reveal_source
                                      (score_drop
                                        (put_on_target
                                          (take_from_source (save_state s1) source first_card)
                                          target)
                                        source target)
                                      source)))
                        else Some (end_drag s1))))"

text \<open>\<^verbatim>\<open>handle_click\<close>\<close>

definition handle_click :: "game \<Rightarrow> pointer \<Rightarrow> game option" where
  "handle_click s pos =
     (case pile_at pos of
        None \<Rightarrow> Some s
      | Some StockPile \<Rightarrow> Some (draw_card_from_stock s)
      | Some pile \<Rightarrow>
          if pile_cards s pile \<noteq> []
          then (case get_card_at (pile_cards s pile) pos of
                  None \<Rightarrow> Some s
                | Some c \<Rightarrow> start_drag s pile c)
          else Some s)"

subsection \<open>Moves to the foundations\<close>

text \<open>\<^verbatim>\<open>for f in self.foundations: if f.can_add(card): ... break\<close>\<close>

definition accepting_foundation :: "game \<Rightarrow> card \<Rightarrow> fidx option" where
  "accepting_foundation s c = find (\<lambda>i. foundation_can_add (foundations s i) c) fidxs"

definition add_to_foundation :: "game \<Rightarrow> fidx \<Rightarrow> card \<Rightarrow> game" where
  "add_to_foundation s i c =
     s\<lparr>foundations := (foundations s)(i := (foundations s i)\<lparr>cards := add_card (cards (foundations s i)) c\<rparr>)\<rparr>"

text \<open>The double-click branch of the event loop in \<^verbatim>\<open>run\<close>.\<close>

definition double_click :: "game \<Rightarrow> pointer \<Rightarrow> game" where
  "double_click s pos =
     (case pile_at pos of
        None \<Rightarrow> s
      | Some pile \<Rightarrow>
          if pile_cards s pile \<noteq> [] \<and> pile \<noteq> StockPile \<and> \<not> is_foundation pile
          then (let c = last (pile_cards s pile)
                in case accepting_foundation s c of
                     None \<Rightarrow> s
                   | Some i \<Rightarrow>
                       (let s1 = save_state s;
                            s2 = set_pile_cards s1 pile (snd (remove_card (pile_cards s1 pile)));
                            s3 = add_score (add_to_foundation s2 i c) SCORE_TO_FOUNDATION;
                            s4 = (if is_tableau pile then reveal_source s3 pile else s3)
                        in check_win s4))
          else s)"

text \<open>
  \<^verbatim>\<open>auto_move_to_foundation\<close>. One round of the \<^verbatim>\<open>while moved\<close> loop looks at the waste
  and then at the tableaus; the flag \<^verbatim>\<open>moved\<close> is threaded through as in the source,
  where \<^verbatim>\<open>if moved: break\<close> sits inside \<^verbatim>\<open>if t.cards:\<close>.
\<close>

definition auto_waste :: "game \<Rightarrow> game \<times> bool" where
  "auto_waste s =
     (if waste s \<noteq> []
      then (let c = last (waste s)
            in case accepting_foundation s c of
                 None \<Rightarrow> (s, False)
               | Some i \<Rightarrow>
                   (add_score
                      (add_to_foundation (s\<lparr>waste := snd (remove_card (waste s))\<rparr>) i c)
                      SCORE_TO_FOUNDATION, True))
      else (s, False))"

fun auto_tableaus :: "tidx list \<Rightarrow> game \<Rightarrow> bool \<Rightarrow> game \<times> bool" where
  "auto_tableaus [] s moved = (s, moved)"
| "auto_tableaus (t # ts) s moved =
     (if tableaus s t \<noteq> []
      then (let c = last (tableaus s t)
            in case accepting_foundation s c of
                 Some i \<Rightarrow>
                   (reveal_source
                      (add_score
                         (add_to_foundation
                            (s\<lparr>tableaus := (tableaus s)(t := snd (remove_card (tableaus s t)))\<rparr>) i c)
                         SCORE_TO_FOUNDATION)
                      (TableauPile t), True)
               | None \<Rightarrow> if moved then (s, moved) else auto_tableaus ts s moved)
      else auto_tableaus ts s moved)"

definition auto_round :: "game \<Rightarrow> game \<times> bool" where
  "auto_round s = (let (s1, moved) = auto_waste s in auto_tableaus tidxs s1 moved)"

definition cards_in_play :: "game \<Rightarrow> nat" where
  "cards_in_play s = length (waste s) + sum_list (map (\<lambda>j. length (tableaus s j)) tidxs)"

text \<open>
  Every round that reports a move has taken a card out of the waste or out of a tableau,
  so the \<^verbatim>\<open>while moved\<close> loop comes to an end.
\<close>

lemma length_flip_top_card [simp]: "length (flip_top_card cs) = length cs"
  by (simp add: flip_top_card_def)

lemma tableaus_sum_upd:
  "sum_list (map (\<lambda>j. length ((f(t := cs)) j)) tidxs) + length (f t)
     = sum_list (map (\<lambda>j. length (f j)) tidxs) + length cs"
  by (cases t) (simp_all add: tidxs_def)

lemma cards_in_play_reveal [simp]:
  "cards_in_play (reveal_source s p) = cards_in_play s"
proof (cases p)
  case (TableauPile j)
  have "sum_list (map (\<lambda>k. length (((tableaus s)(j := flip_top_card (tableaus s j))) k)) tidxs)
        = sum_list (map (\<lambda>k. length (tableaus s k)) tidxs)"
    using tableaus_sum_upd [of "tableaus s" j "flip_top_card (tableaus s j)"] by simp
  then show ?thesis
    using TableauPile by (simp add: reveal_source_def cards_in_play_def add_score_def)
qed (simp_all add: reveal_source_def)

lemma cards_in_play_add_score [simp]:
  "cards_in_play (add_score s n) = cards_in_play s"
  by (simp add: cards_in_play_def add_score_def)

lemma cards_in_play_add_to_foundation [simp]:
  "cards_in_play (add_to_foundation s i c) = cards_in_play s"
  by (simp add: cards_in_play_def add_to_foundation_def)

lemma auto_waste_moved:
  "auto_waste s = (s', True) \<Longrightarrow> cards_in_play s' < cards_in_play s"
  by (auto simp: auto_waste_def Let_def remove_card_def cards_in_play_def
      add_score_def add_to_foundation_def split: if_splits option.splits)

lemma auto_waste_not_moved:
  "auto_waste s = (s', False) \<Longrightarrow> s' = s"
  by (auto simp: auto_waste_def Let_def split: if_splits option.splits)

lemma cards_in_play_tableau_pop:
  "tableaus s t \<noteq> [] \<Longrightarrow>
   cards_in_play (s\<lparr>tableaus := (tableaus s)(t := snd (remove_card (tableaus s t)))\<rparr>)
     < cards_in_play s"
  using tableaus_sum_upd [of "tableaus s" t "butlast (tableaus s t)"]
  by (simp add: cards_in_play_def remove_card_def) (cases "tableaus s t"; simp)

lemma auto_tableaus_moved:
  "auto_tableaus ts s moved = (s', True) \<Longrightarrow>
     cards_in_play s' < cards_in_play s \<or> (moved \<and> s' = s)"
proof (induction ts)
  case Nil
  then show ?case by simp
next
  case (Cons t ts)
  show ?case
  proof (cases "tableaus s t \<noteq> []")
    case True
    show ?thesis
    proof (cases "accepting_foundation s (last (tableaus s t))")
      case None
      with True Cons show ?thesis by (auto simp: Let_def split: if_splits)
    next
      case (Some i)
      with True Cons.prems cards_in_play_tableau_pop [OF True] show ?thesis
        by (auto simp: Let_def)
    qed
  next
    case False
    with Cons show ?thesis by simp
  qed
qed

lemma auto_round_moved:
  assumes "auto_round s = (s', True)"
  shows "cards_in_play s' < cards_in_play s"
proof -
  obtain s1 m where w: "auto_waste s = (s1, m)" by (cases "auto_waste s")
  with assms have t: "auto_tableaus tidxs s1 m = (s', True)"
    by (simp add: auto_round_def)
  show ?thesis
  proof (cases m)
    case True
    with w have "cards_in_play s1 < cards_in_play s" by (simp add: auto_waste_moved)
    with auto_tableaus_moved [OF t] show ?thesis by auto
  next
    case False
    with w have "s1 = s" by (simp add: auto_waste_not_moved)
    with auto_tableaus_moved [OF t] False show ?thesis by auto
  qed
qed

function auto_loop :: "game \<Rightarrow> game" where
  "auto_loop s = (case auto_round s of (s1, moved) \<Rightarrow> if moved then auto_loop s1 else s1)"
  by pat_completeness auto
termination
  apply (relation "measure cards_in_play")
   apply simp
  apply (simp add: auto_round_moved)
  done

definition auto_move_to_foundation :: "game \<Rightarrow> game" where
  "auto_move_to_foundation s = check_win (auto_loop (save_state s))"

subsection \<open>Reachable states\<close>

text \<open>
  The states the event loop of \<^verbatim>\<open>run\<close> can produce: the constructor deals a first game;
  afterwards a left mouse press on the undo button undoes, a double click tries the
  direct move, any other press is \<^verbatim>\<open>handle_click\<close>, a release is \<^verbatim>\<open>handle_drop\<close>, and the
  keys N, A and U (or Ctrl-Z) start a new game, auto-complete and undo. Mouse motion
  only changes coordinates. A drag-and-drop move is a press followed by a release; the
  set below is closed under the handlers in any order, so it also holds what the model
  does when a key is pressed in the middle of a drag. There the value model is coarser
  than Python: after undo or a new game \<^verbatim>\<open>dragged_cards\<close> holds card objects that are no
  longer in any pile, which Python tells from the new objects of the same suit and rank
  and the model does not.
\<close>

inductive reachable :: "game \<Rightarrow> bool" where
  start: "shuffled deck \<Longrightarrow> new_game initial deck = Some s \<Longrightarrow> reachable s"
| key_n: "reachable s \<Longrightarrow> shuffled deck \<Longrightarrow> new_game s deck = Some s' \<Longrightarrow> reachable s'"
| mouse_down: "reachable s \<Longrightarrow> handle_click s pos = Some s' \<Longrightarrow> reachable s'"
| mouse_down_twice: "reachable s \<Longrightarrow> reachable (double_click s pos)"
| mouse_up: "reachable s \<Longrightarrow> handle_drop s pos = Some s' \<Longrightarrow> reachable s'"
| key_a: "reachable s \<Longrightarrow> reachable (auto_move_to_foundation s)"
| key_u: "reachable s \<Longrightarrow> reachable (snd (undo s))"

subsection \<open>The event loop\<close>

text \<open>
  The events \<^verbatim>\<open>run\<close> acts on, and \<^verbatim>\<open>run\<close> itself on a list of events: a left press on the
  undo button, a double click, any other left press, a left release, and the keys N (with
  the deck the shuffle produces), A and U or Ctrl-Z.
\<close>

datatype event = MouseDownUndo | DoubleClick pointer | MouseDown pointer | MouseUp pointer
  | KeyN "card list" | KeyA | KeyU

fun handle_event :: "game \<Rightarrow> event \<Rightarrow> game option" where
  "handle_event s MouseDownUndo = Some (snd (undo s))"
| "handle_event s (DoubleClick pos) = Some (double_click s pos)"
| "handle_event s (MouseDown pos) = handle_click s pos"
| "handle_event s (MouseUp pos) = handle_drop s pos"
| "handle_event s (KeyN deck) = new_game s deck"
| "handle_event s KeyA = Some (auto_move_to_foundation s)"
| "handle_event s KeyU = Some (snd (undo s))"

fun run :: "game \<Rightarrow> event list \<Rightarrow> game option" where
  "run s [] = Some s"
| "run s (e # es) = (case handle_event s e of None \<Rightarrow> None | Some s' \<Rightarrow> run s' es)"

text \<open>\<^verbatim>\<open>main\<close>: the constructor deals the first game, then the loop runs.\<close>

definition main :: "card list \<Rightarrow> event list \<Rightarrow> game option" where
  "main deck events =
     (case new_game initial deck of None \<Rightarrow> None | Some s \<Rightarrow> run s events)"

text \<open>The deck of a new game is a shuffled deck.\<close>

fun event_ok :: "event \<Rightarrow> bool" where
  "event_ok (KeyN deck) = shuffled deck"
| "event_ok e = True"

subsection \<open>Example states\<close>

text \<open>An empty stock under a waste of three cards, with five points on the score.\<close>

definition example_recycle :: game where
  "example_recycle =
     initial\<lparr>waste := [\<lparr>suit = Hearts, rank = Queen, face_up = True\<rparr>,
                        \<lparr>suit = Clubs, rank = Two, face_up = True\<rparr>,
                        \<lparr>suit = Spades, rank = Nine, face_up = True\<rparr>],
             score := 5\<rparr>"

definition shown :: "suit \<Rightarrow> rank \<Rightarrow> card" where
  "shown s r = \<lparr>suit = s, rank = r, face_up = True\<rparr>"

text \<open>
  The seven of spades lies face up on a face-down eight of hearts in the first tableau,
  the spade foundation has grown to the six, and the score is 20.
\<close>

definition example_table :: game where
  "example_table =
     initial\<lparr>tableaus := (\<lambda>j. [])(T0 := [Card Hearts Eight, shown Spades Seven]),
             foundations := setup_foundation
               (F3 := \<lparr>cards = map (shown Spades) [Ace, Two, Three, Four, Five, Six],
                       fsuit = Some Spades\<rparr>),
             score := 20\<rparr>"

definition example_drag :: game where
  "example_drag =
     example_table\<lparr>dragging := True,
             dragged_cards := [shown Spades Seven],
             drag_source := Some (TableauPile T0)\<rparr>"

definition on_first_tableau :: pointer where
  "on_first_tableau =
     \<lparr>pile_at = Some (TableauPile T0), on_card = (\<lambda>k. k = 1),
      over_foundation = (\<lambda>i. False), over_tableau = (\<lambda>j. j = T0)\<rparr>"

definition over_last_foundation :: pointer where
  "over_last_foundation =
     \<lparr>pile_at = Some (FoundationPile F3), on_card = (\<lambda>k. True),
      over_foundation = (\<lambda>i. i = F3), over_tableau = (\<lambda>j. False)\<rparr>"

text \<open>The first game of the sorted deck, and that game after 25 clicks on the stock.\<close>

definition first_deal :: game where
  "first_deal = the (new_game initial create_deck)"

definition on_stock :: pointer where
  "on_stock = \<lparr>pile_at = Some StockPile, on_card = (\<lambda>k. True),
      over_foundation = (\<lambda>i. False), over_tableau = (\<lambda>j. False)\<rparr>"

definition after_recycle :: game where
  "after_recycle = (draw_card_from_stock ^^ 25) first_deal"

subsection \<open>Vocabulary of the claims\<close>


text \<open>
  What undo has to bring back (claim C1): the cards of every pile, in order and with
  their faces, and the score.
\<close>

definition table ::
  "game \<Rightarrow> card list \<times> card list \<times> (fidx \<Rightarrow> card list) \<times> (tidx \<Rightarrow> card list) \<times> int" where
  "table s = (stock s, waste s, (\<lambda>i. cards (foundations s i)), tableaus s, score s)"

definition snapshot_table ::
  "snapshot \<Rightarrow> card list \<times> card list \<times> (fidx \<Rightarrow> card list) \<times> (tidx \<Rightarrow> card list) \<times> int" where
  "snapshot_table h =
     (map restore_card (snap_stock h), map restore_card (snap_waste h),
      (\<lambda>i. map restore_card (snap_foundations h i)),
      (\<lambda>j. map restore_card (snap_tableaus h j)), snap_score h)"

text \<open>Undoing \<open>s'\<close> succeeds and gives the table of \<open>s\<close>.\<close>

definition undo_restores :: "game \<Rightarrow> game \<Rightarrow> bool" where
  "undo_restores s s' \<longleftrightarrow> fst (undo s') \<and> table (snd (undo s')) = table s"

text \<open>The conditions under which \<^verbatim>\<open>handle_drop\<close> and the double click carry out a move.\<close>

definition drop_moves :: "game \<Rightarrow> pointer \<Rightarrow> bool" where
  "drop_moves s pos \<longleftrightarrow>
     dragging s \<and> drag_source s \<noteq> None \<and> find_drop_target s pos \<noteq> None
     \<and> find_drop_target s pos \<noteq> drag_source s"

definition double_click_moves :: "game \<Rightarrow> pointer \<Rightarrow> bool" where
  "double_click_moves s pos \<longleftrightarrow>
     (case pile_at pos of
        None \<Rightarrow> False
      | Some pile \<Rightarrow>
          pile_cards s pile \<noteq> [] \<and> pile \<noteq> StockPile \<and> \<not> is_foundation pile
          \<and> accepting_foundation s (last (pile_cards s pile)) \<noteq> None)"

text \<open>The last snapshot of \<open>s'\<close> records the table of \<open>s\<close>.\<close>

definition saved :: "game \<Rightarrow> game \<Rightarrow> bool" where
  "saved s s' \<longleftrightarrow> move_history s' \<noteq> [] \<and> snapshot_table (last (move_history s')) = table s"

text \<open>
  The invariant behind claim C8: neither the score nor any score kept in the history is
  negative.
\<close>

definition score_ok :: "game \<Rightarrow> bool" where
  "score_ok s \<longleftrightarrow> 0 \<le> score s \<and> list_all (\<lambda>h. 0 \<le> snap_score h) (move_history s)"

text \<open>
  The vocabulary of claim C9. A run descends by one and changes colour from each card to
  the next; the face-up suffix of a pile is its longest final stretch of face-up cards.
\<close>

fun run_ok :: "card list \<Rightarrow> bool" where
  "run_ok [] = True"
| "run_ok [c] = True"
| "run_ok (a # b # cs) =
     (card_color b \<noteq> card_color a \<and> card_value b = card_value a - 1 \<and> run_ok (b # cs))"

definition face_up_suffix :: "card list \<Rightarrow> card list" where
  "face_up_suffix cs = rev (takeWhile face_up (rev cs))"

text \<open>
  A tableau in order: its top card, if any, is face up, its face-up cards are exactly its
  face-up suffix, and that suffix is a run.
\<close>

definition tableau_ok :: "card list \<Rightarrow> bool" where
  "tableau_ok cs \<longleftrightarrow>
     (cs = [] \<or> face_up (last cs))
     \<and> filter face_up cs = face_up_suffix cs
     \<and> run_ok (face_up_suffix cs)"

text \<open>
  The invariant behind claim C9: waste and foundations hold face-up cards only, every
  tableau is in order, the cards being dragged are a face-up run, and every snapshot of
  the history records such a layout.
\<close>

definition layout_ok :: "card list \<Rightarrow> (fidx \<Rightarrow> card list) \<Rightarrow> (tidx \<Rightarrow> card list) \<Rightarrow> bool" where
  "layout_ok w f t \<longleftrightarrow>
     list_all face_up w \<and> (\<forall>i. list_all face_up (f i)) \<and> (\<forall>j. tableau_ok (t j))"

definition table_ok :: "game \<Rightarrow> bool" where
  "table_ok s \<longleftrightarrow> layout_ok (waste s) (\<lambda>i. cards (foundations s i)) (tableaus s)"

definition drag_ok :: "game \<Rightarrow> bool" where
  "drag_ok s \<longleftrightarrow> list_all face_up (dragged_cards s) \<and> run_ok (dragged_cards s)"




text \<open>
  A pointer on a tableau, and the first game of the sorted deck after the queen of
  diamonds has been dragged from the last tableau onto the king of spades in the first.
\<close>

definition on_tableau :: "tidx \<Rightarrow> pointer" where
  "on_tableau j = \<lparr>pile_at = Some (TableauPile j), on_card = (\<lambda>k. True),
      over_foundation = (\<lambda>i. False), over_tableau = (\<lambda>j'. j' = j)\<rparr>"


text \<open>
  A deck on which 24 clicks on the stock followed by auto-complete win the game; that
  game after one more click on the (empty) stock and an undo, and after the king of
  diamonds has been dragged from its foundation to the empty first tableau; and a table
  with four full foundations.
\<close>

definition win_deck :: "card list" where
  "win_deck =
     [Card Diamonds Jack, Card Diamonds Ten, Card Diamonds Nine, Card Diamonds Eight,
      Card Diamonds Seven, Card Diamonds Six, Card Diamonds Five, Card Diamonds Four,
      Card Diamonds Three, Card Diamonds Two, Card Diamonds Ace, Card Hearts King,
      Card Hearts Queen, Card Hearts Jack, Card Hearts Ten, Card Hearts Nine,
      Card Hearts Eight, Card Hearts Seven, Card Hearts Six, Card Hearts Five,
      Card Hearts Four, Card Hearts Three, Card Hearts Two, Card Hearts Ace,
      Card Clubs Ace, Card Clubs Two, Card Clubs Eight, Card Clubs Three,
      Card Clubs Nine, Card Spades Ace, Card Clubs Four, Card Clubs Ten,
      Card Spades Two, Card Spades Six, Card Clubs Five, Card Clubs Jack,
      Card Spades Three, Card Spades Seven, Card Spades Ten, Card Clubs Six,
      Card Clubs Queen, Card Spades Four, Card Spades Eight, Card Spades Jack,
      Card Spades King, Card Clubs Seven, Card Clubs King, Card Spades Five,
      Card Spades Nine, Card Spades Queen, Card Diamonds Queen, Card Diamonds King]"

definition win_events :: "event list" where
  "win_events = replicate 24 (MouseDown on_stock) @ [KeyA]"

definition on_foundation :: "fidx \<Rightarrow> pointer" where
  "on_foundation i = \<lparr>pile_at = Some (FoundationPile i), on_card = (\<lambda>k. True),
      over_foundation = (\<lambda>i'. i' = i), over_tableau = (\<lambda>j. False)\<rparr>"

definition won_then_undone :: game where
  "won_then_undone = the (main win_deck (win_events @ [MouseDown on_stock, KeyU]))"

definition won_then_king_moved :: game where
  "won_then_king_moved =
     the (main win_deck (win_events @ [MouseDown (on_foundation F1), MouseUp (on_tableau T0)]))"

definition full_house :: game where
  "full_house =
     initial\<lparr>foundations :=
       (\<lambda>i. \<lparr>cards = map (shown (SUITS ! fnum i)) RANKS, fsuit = Some (SUITS ! fnum i)\<rparr>)\<rparr>"

text \<open>
  The vocabulary of claim C5: the suit a foundation is bound to once its first card is
  placed, and piles whose cards all have one suit. \<open>foundations_ok\<close> is the invariant
  behind it: every foundation, now and in every snapshot, holds one suit only, and keeps
  the suit it was constructed with in \<open>fsuit\<close>.
\<close>

definition uniform :: "card list \<Rightarrow> bool" where
  "uniform cs \<longleftrightarrow> list_all (\<lambda>c. suit c = suit (hd cs)) cs"

definition first_suit :: "foundation_pile \<Rightarrow> suit option" where
  "first_suit f = (case cards f of [] \<Rightarrow> None | c # cs \<Rightarrow> Some (suit c))"

definition foundations_ok :: "game \<Rightarrow> bool" where
  "foundations_ok s \<longleftrightarrow>
     (\<forall>i. uniform (cards (foundations s i))
          \<and> fsuit (foundations s i) = Some (SUITS ! fnum i))
     \<and> list_all (\<lambda>h. \<forall>i. uniform (map restore_card (snap_foundations h i))) (move_history s)"

text \<open>
  The first game of the sorted deck after the ace of clubs has been dragged from the sixth
  tableau to the first foundation, the one constructed for hearts.
\<close>

definition ace_on_hearts :: game where
  "ace_on_hearts =
     the (handle_drop (the (handle_click first_deal (on_tableau T5))) (on_foundation F0))"

text \<open>While a drag is on, its source is known.\<close>

definition drag_wf :: "game \<Rightarrow> bool" where
  "drag_wf s \<longleftrightarrow> \<not> dragging s \<or> drag_source s \<noteq> None"

section \<open>Basic facts\<close>

declare deal_stock.simps [simp del] recycle_waste.simps [simp del] auto_loop.simps [simp del]

lemma rev_butlast_last: "xs \<noteq> [] \<Longrightarrow> rev xs = last xs # rev (butlast xs)"
  by (induction xs rule: rev_induct) simp_all

lemma recycle_waste_eq:
  "recycle_waste s =
     s\<lparr>waste := [], stock := stock s @ map (\<lambda>c. c\<lparr>face_up := False\<rparr>) (rev (waste s))\<rparr>"
proof (induction s rule: recycle_waste.induct)
  case (1 s)
  show ?case
  proof (cases "waste s = []")
    case True
    then show ?thesis by (subst recycle_waste.simps) simp
  next
    case False
    with 1 show ?thesis
      by (subst recycle_waste.simps) (simp add: add_card_def rev_butlast_last)
  qed
qed

lemma deal_stock_eq:
  "deal_stock deck st = st @ map (\<lambda>c. c\<lparr>face_up := False\<rparr>) (rev deck)"
proof (induction deck st rule: deal_stock.induct)
  case (1 deck st)
  show ?case
  proof (cases "deck = []")
    case True
    then show ?thesis by (subst deal_stock.simps) simp
  next
    case False
    with 1 show ?thesis
      by (subst deal_stock.simps) (simp add: add_card_def rev_butlast_last)
  qed
qed

lemma save_state_fields [simp]:
  "stock (save_state s) = stock s" "waste (save_state s) = waste s"
  "foundations (save_state s) = foundations s" "tableaus (save_state s) = tableaus s"
  "score (save_state s) = score s" "won (save_state s) = won s"
  "dragging (save_state s) = dragging s" "dragged_cards (save_state s) = dragged_cards s"
  "drag_source (save_state s) = drag_source s"
  by (simp_all add: save_state_def Let_def)

lemma draw_all:
  "stock t = xs \<Longrightarrow>
     waste ((draw_card_from_stock ^^ length xs) t)
       = waste t @ map (\<lambda>c. c\<lparr>face_up := True\<rparr>) (rev xs)
     \<and> stock ((draw_card_from_stock ^^ length xs) t) = []"
proof (induction xs arbitrary: t rule: rev_induct)
  case Nil
  then show ?case by simp
next
  case (snoc x xs)
  let ?t = "draw_card_from_stock t"
  from snoc.prems have "stock ?t = xs"
    and "waste ?t = waste t @ [x\<lparr>face_up := True\<rparr>]"
    by (simp_all add: draw_card_from_stock_def Let_def add_card_def)
  with snoc.IH [of ?t] show ?case
    by (simp add: funpow_swap1)
qed

lemma length_create_deck: "length create_deck = 52"
  by (simp add: create_deck_def SUITS_def RANKS_def)

lemma shuffled_length: "shuffled deck \<Longrightarrow> length deck = 52"
  using mset_eq_length [of deck create_deck] by (simp add: shuffled_def length_create_deck)

lemma deal_tableaus_faces:
  "length order \<le> length deck \<Longrightarrow>
   \<exists>tabs'. deal_tableaus order deck tabs = Some (take (length deck - length order) deck, tabs')
     \<and> (\<forall>j. map face_up (tabs' j)
            = map face_up (tabs j) @ map (\<lambda>(i, j'). i = j') (filter (\<lambda>(i, j'). j' = j) order))"
proof (induction order arbitrary: deck tabs)
  case Nil
  then show ?case by simp
next
  case (Cons p rest)
  obtain i j where p: "p = (i, j)" by (cases p)
  from Cons.prems have ne: "deck \<noteq> []" by auto
  let ?tabs = "tabs(j := add_card (tabs j) ((last deck)\<lparr>face_up := (i = j)\<rparr>))"
  from Cons.prems ne have "length rest \<le> length (butlast deck)" by simp
  from Cons.IH [OF this, of ?tabs] obtain tabs' where
    d: "deal_tableaus rest (butlast deck) ?tabs
          = Some (take (length (butlast deck) - length rest) (butlast deck), tabs')"
    and f: "\<forall>k. map face_up (tabs' k)
            = map face_up (?tabs k) @ map (\<lambda>(i, j'). i = j') (filter (\<lambda>(i, j'). j' = k) rest)"
    by blast
  have t: "take (length (butlast deck) - length rest) (butlast deck)
            = take (length deck - length (p # rest)) deck"
    using ne by (simp add: take_butlast)
  have "deal_tableaus (p # rest) deck tabs = Some (take (length deck - length (p # rest)) deck, tabs')"
    using d ne unfolding p t [unfolded p] by (simp add: deal_def)
  moreover have "\<forall>k. map face_up (tabs' k)
      = map face_up (tabs k) @ map (\<lambda>(i, j'). i = j') (filter (\<lambda>(i, j'). j' = k) (p # rest))"
    using f by (auto simp: p add_card_def)
  ultimately show ?case by blast
qed

lemma deal_order_faces:
  "map (\<lambda>(i, j'). i = j') (filter (\<lambda>(i, j'). j' = j) deal_order) = replicate (tnum j) False @ [True]"
  by (cases j) (simp_all add: deal_order_def tidxs_def numeral_eq_Suc)

lemma length_deal_order: "length deal_order = 28"
  by (simp add: deal_order_def tidxs_def)

lemma find_drop_target_cong:
  "dragged_cards s = dragged_cards t \<Longrightarrow> foundations s = foundations t \<Longrightarrow>
   tableaus s = tableaus t \<Longrightarrow> find_drop_target s pos = find_drop_target t pos"
  by (simp add: find_drop_target_def cong: list.case_cong option.case_cong if_cong)

lemma find_drop_target_dragging [simp]:
  "find_drop_target (s\<lparr>dragging := b\<rparr>) pos = find_drop_target s pos"
  by (rule find_drop_target_cong) simp_all

lemma find_drop_target_kind:
  "find_drop_target s pos = Some target \<Longrightarrow> is_foundation target \<or> is_tableau target"
  by (auto simp: find_drop_target_def split: list.splits option.splits if_splits)

lemma find_drop_target_dragged:
  "find_drop_target s pos = Some target \<Longrightarrow> dragged_cards s \<noteq> []"
  by (auto simp: find_drop_target_def)

lemma handle_drop_valid:
  assumes "dragging s" and "drag_source s = Some source"
    and "find_drop_target s pos = Some target" and "target \<noteq> source"
  shows "handle_drop s pos =
     Some (end_drag (reveal_source (score_drop (put_on_target
        (take_from_source (save_state (s\<lparr>dragging := False\<rparr>)) source (hd (dragged_cards s)))
        target) source target) source))"
  using assms find_drop_target_dragged [OF assms(3)]
  by (cases "dragged_cards s") (simp_all add: handle_drop_def Let_def)

lemma score_end_drag [simp]: "score (end_drag s) = score s"
  by (simp add: end_drag_def check_win_def)

lemma tableaus_end_drag [simp]: "tableaus (end_drag s) = tableaus s"
  by (simp add: end_drag_def check_win_def)

lemma score_put_on_target [simp]: "score (put_on_target s t) = score s"
  by (cases t) (simp_all add: put_on_target_def)

lemma dragged_put_on_target [simp]: "dragged_cards (put_on_target s t) = dragged_cards s"
  by (cases t) (simp_all add: put_on_target_def)

lemma score_take_from_source [simp]: "score (take_from_source s p c) = score s"
  by (cases p) (simp_all add: take_from_source_def)

lemma dragged_take_from_source [simp]:
  "dragged_cards (take_from_source s p c) = dragged_cards s"
  by (cases p) (simp_all add: take_from_source_def)


lemma tableaus_score_drop [simp]: "tableaus (score_drop s source target) = tableaus s"
  by (simp add: score_drop_def add_score_def)


lemma restore_card_tuple [simp]: "restore_card (card_tuple c) = c"
  by (cases c) (simp add: card_tuple_def Card_def)

lemma map_restore_card_tuple [simp]: "map (restore_card \<circ> card_tuple) cs = cs"
  by (induction cs) simp_all

lemma snapshot_table_take [simp]: "snapshot_table (take_snapshot s) = table s"
  by (simp add: snapshot_table_def take_snapshot_def table_def)

lemma saved_undo: "saved s s' \<Longrightarrow> undo_restores s s'"
  by (auto simp: saved_def undo_restores_def undo_def Let_def table_def snapshot_table_def)

lemma tl_snoc_long:
  "99 < length h \<Longrightarrow> tl (h @ [x]) \<noteq> [] \<and> last (tl (h @ [x])) = x"
  by (cases h) auto

lemma saved_save_state: "saved s (save_state s)"
  by (simp add: saved_def save_state_def Let_def tl_snoc_long)

lemma saved_history: "saved s s' \<Longrightarrow> move_history s'' = move_history s' \<Longrightarrow> saved s s''"
  by (simp add: saved_def)

lemma saved_table: "saved s s' \<Longrightarrow> table t = table s \<Longrightarrow> saved t s'"
  by (simp add: saved_def)

lemma history_add_score [simp]: "move_history (add_score s n) = move_history s"
  by (simp add: add_score_def)

lemma history_check_win [simp]: "move_history (check_win s) = move_history s"
  by (simp add: check_win_def)

lemma history_end_drag [simp]: "move_history (end_drag s) = move_history s"
  by (simp add: end_drag_def)

lemma history_set_pile_cards [simp]: "move_history (set_pile_cards s p cs) = move_history s"
  by (cases p) simp_all

lemma history_reveal_source [simp]: "move_history (reveal_source s p) = move_history s"
  by (cases p) (simp_all add: reveal_source_def)

lemma history_score_drop [simp]: "move_history (score_drop s p q) = move_history s"
  by (simp add: score_drop_def)

lemma history_put_on_target [simp]: "move_history (put_on_target s p) = move_history s"
  by (simp add: put_on_target_def)

lemma history_take_from_source [simp]: "move_history (take_from_source s p c) = move_history s"
  by (cases p) (simp_all add: take_from_source_def)

lemma history_add_to_foundation [simp]: "move_history (add_to_foundation s i c) = move_history s"
  by (simp add: add_to_foundation_def)

lemma history_auto_waste [simp]: "move_history (fst (auto_waste s)) = move_history s"
  by (simp add: auto_waste_def Let_def split: option.splits)

lemma history_auto_tableaus [simp]:
  "move_history (fst (auto_tableaus ts s moved)) = move_history s"
  by (induction ts arbitrary: moved) (simp_all add: Let_def split: option.splits)

lemma history_auto_round [simp]: "move_history (fst (auto_round s)) = move_history s"
  by (simp add: auto_round_def split_beta)

lemma history_auto_loop [simp]: "move_history (auto_loop s) = move_history s"
proof (induction s rule: auto_loop.induct)
  case (1 s)
  obtain s1 moved where r: "auto_round s = (s1, moved)" by (cases "auto_round s")
  then have h: "move_history s1 = move_history s"
    using history_auto_round [of s] by simp
  show ?case
  proof (cases moved)
    case True
    with 1 [OF r [symmetric]] r h show ?thesis
      by (subst auto_loop.simps) simp
  next
    case False
    with r h show ?thesis by (subst auto_loop.simps) simp
  qed
qed

lemma saved_draw: "saved s (draw_card_from_stock s)"
  by (rule saved_history [OF saved_save_state])
     (simp add: draw_card_from_stock_def Let_def recycle_waste_eq)

lemma saved_auto: "saved s (auto_move_to_foundation s)"
  by (rule saved_history [OF saved_save_state]) (simp add: auto_move_to_foundation_def)

lemma saved_double_click:
  "double_click_moves s pos \<Longrightarrow> saved s (double_click s pos)"
  by (rule saved_history [OF saved_save_state])
     (auto simp: double_click_moves_def double_click_def Let_def split: option.splits)

lemma table_dragging [simp]: "table (s\<lparr>dragging := b\<rparr>) = table s"
  by (simp add: table_def)

lemma saved_handle_drop:
  assumes "drop_moves s pos"
  shows "\<exists>s'. handle_drop s pos = Some s' \<and> saved s s'"
proof -
  from assms obtain source target where h: "dragging s" "drag_source s = Some source"
    "find_drop_target s pos = Some target" "target \<noteq> source"
    by (auto simp: drop_moves_def)
  have "saved (s\<lparr>dragging := False\<rparr>) (save_state (s\<lparr>dragging := False\<rparr>))"
    by (rule saved_save_state)
  then have "saved s (save_state (s\<lparr>dragging := False\<rparr>))"
    by (rule saved_table) simp
  then show ?thesis
    unfolding handle_drop_valid [OF h]
    by (auto elim: saved_history)
qed

lemma remove_cards_from_append:
  "remove_cards_from cs c = (removed, rest) \<Longrightarrow> rest @ removed = cs"
  by (auto simp: remove_cards_from_def Let_def split: if_splits)

lemma table_begin_drag [simp]: "table (begin_drag s p ds) = table s"
  by (simp add: begin_drag_def Let_def table_def)

lemma table_start_drag: "start_drag s p c = Some s1 \<Longrightarrow> table s1 = table s"
proof (cases p)
  case (TableauPile j)
  assume a: "start_drag s p c = Some s1"
  obtain removed rest where r: "remove_cards_from (tableaus s j) c = (removed, rest)"
    by (cases "remove_cards_from (tableaus s j) c")
  from remove_cards_from_append [OF r] have "(tableaus s)(j := rest @ removed) = tableaus s"
    by simp
  with a r TableauPile show ?thesis
    by (auto simp: add_cards_def)
qed (auto split: option.splits)

lemma table_handle_click:
  "pile_at pos \<noteq> Some StockPile \<Longrightarrow> handle_click s pos = Some s1 \<Longrightarrow> table s1 = table s"
  by (auto simp: handle_click_def split: option.splits pile_ref.splits if_splits
      dest!: table_start_drag simp del: start_drag.simps)

lemma example_press: "handle_click example_table on_first_tableau = Some example_drag"
  by (simp add: handle_click_def on_first_tableau_def example_table_def example_drag_def
      initial_def get_card_at_def shown_def Card_def remove_cards_from_def begin_drag_def
      add_cards_def Let_def upt_rec numeral_2_eq_2)

lemma example_double_click: "double_click_moves example_table on_first_tableau"
  by (simp add: double_click_moves_def on_first_tableau_def example_table_def initial_def
      accepting_foundation_def fidxs_def foundation_can_add_def shown_def card_value_def
      setup_foundation_def)

lemma example_drop: "drop_moves example_drag over_last_foundation"
  by (simp add: drop_moves_def example_drag_def example_table_def over_last_foundation_def
      initial_def find_drop_target_def fidxs_def foundation_can_add_def shown_def
      card_value_def setup_foundation_def)

lemma auto_loop_invariant:
  assumes "P s" and step: "\<And>t t' m. P t \<Longrightarrow> auto_round t = (t', m) \<Longrightarrow> P t'"
  shows "P (auto_loop s)"
  using assms(1)
proof (induction s rule: auto_loop.induct)
  case (1 s)
  obtain s1 moved where r: "auto_round s = (s1, moved)" by (cases "auto_round s")
  from step [OF "1.prems" r] have p: "P s1" .
  show ?case
  proof (cases moved)
    case True
    from "1.IH" [OF r [symmetric] True p] r True show ?thesis
      by (subst auto_loop.simps) simp
  next
    case False
    with r p show ?thesis by (subst auto_loop.simps) simp
  qed
qed

lemma handle_drop_cases:
  assumes "handle_drop s pos = Some s'"
  obtains "\<not> dragging s" "s' = s"
  | "dragging s" "s' = end_drag (s\<lparr>dragging := False\<rparr>)"
  | source target where "dragging s" "drag_source s = Some source"
      "find_drop_target s pos = Some target" "target \<noteq> source"
      "s' = end_drag (reveal_source (score_drop (put_on_target
        (take_from_source (save_state (s\<lparr>dragging := False\<rparr>)) source (hd (dragged_cards s)))
        target) source target) source)"
proof (cases "dragging s")
  case False
  with assms have "s' = s" by (simp add: handle_drop_def)
  with False that(1) show ?thesis by blast
next
  case True
  with assms obtain source where src: "drag_source s = Some source"
    by (auto simp: handle_drop_def Let_def split: option.splits)
  show ?thesis
  proof (cases "find_drop_target s pos")
    case None
    with assms True src have "s' = end_drag (s\<lparr>dragging := False\<rparr>)"
      by (simp add: handle_drop_def Let_def)
    with True that(2) show ?thesis by blast
  next
    case (Some target)
    show ?thesis
    proof (cases "target = source")
      case eq: True
      with assms True src Some have "s' = end_drag (s\<lparr>dragging := False\<rparr>)"
        by (simp add: handle_drop_def Let_def)
      with True that(2) show ?thesis by blast
    next
      case False
      from handle_drop_valid [OF True src Some False] assms
      have "s' = end_drag (reveal_source (score_drop (put_on_target
        (take_from_source (save_state (s\<lparr>dragging := False\<rparr>)) source (hd (dragged_cards s)))
        target) source target) source)" by simp
      with that(3) [OF True src Some False] show ?thesis by blast
    qed
  qed
qed

lemma new_game_fields:
  assumes "new_game s deck = Some s'"
  shows "score s' = 0" "move_history s' = []" "\<not> won s'" "waste s' = []"
    "cards (foundations s' i) = []" "fsuit (foundations s' i) = fsuit (foundations s i)"
    "dragging s' = dragging s" "dragged_cards s' = dragged_cards s"
    "drag_source s' = drag_source s"
  using assms by (auto simp: new_game_def Let_def split: option.splits)

lemma new_game_succeeds: "shuffled deck \<Longrightarrow> \<exists>s'. new_game s deck = Some s'"
  using deal_tableaus_faces [of deal_order deck "\<lambda>j. []"] shuffled_length [of deck]
  by (auto simp: new_game_def length_deal_order)

lemma start_drag_fields:
  assumes "start_drag s p c = Some s'"
  shows "score s' = score s" "move_history s' = move_history s" "won s' = won s"
    "stock s' = stock s" "waste s' = waste s" "foundations s' = foundations s"
  using assms
  by (cases p; auto simp: begin_drag_def Let_def split: option.splits prod.splits if_splits)+

lemma handle_click_cases:
  assumes "handle_click s pos = Some s'"
  obtains "s' = s"
  | "pile_at pos = Some StockPile" "s' = draw_card_from_stock s"
  | pile c where "pile_at pos = Some pile" "pile \<noteq> StockPile"
      "get_card_at (pile_cards s pile) pos = Some c" "start_drag s pile c = Some s'"
proof -
  from assms have "s' = s
    \<or> (pile_at pos = Some StockPile \<and> s' = draw_card_from_stock s)
    \<or> (\<exists>pile c. pile_at pos = Some pile \<and> pile \<noteq> StockPile
          \<and> get_card_at (pile_cards s pile) pos = Some c \<and> start_drag s pile c = Some s')"
    by (auto simp: handle_click_def split: option.splits pile_ref.splits if_splits
        simp del: start_drag.simps)
  with that show ?thesis by blast
qed

lemma score_ok_frame:
  "score_ok s \<Longrightarrow> move_history s' = move_history s \<Longrightarrow> 0 \<le> score s' \<Longrightarrow> score_ok s'"
  by (simp add: score_ok_def)

lemma score_ok_save_state: "score_ok s \<Longrightarrow> score_ok (save_state s)"
  by (cases "move_history s")
     (auto simp: score_ok_def save_state_def Let_def take_snapshot_def)

lemma score_add_score [simp]: "0 \<le> score (add_score s n)"
  by (simp add: add_score_def)

lemma score_reveal_source: "0 \<le> score s \<Longrightarrow> 0 \<le> score (reveal_source s p)"
  by (cases p) (simp_all add: reveal_source_def)

lemma score_score_drop_nonneg: "0 \<le> score s \<Longrightarrow> 0 \<le> score (score_drop s p q)"
  by (simp add: score_drop_def)

lemma score_check_win [simp]: "score (check_win s) = score s"
  by (simp add: check_win_def)

lemma score_ok_draw: "score_ok s \<Longrightarrow> score_ok (draw_card_from_stock s)"
  by (rule score_ok_frame [OF score_ok_save_state])
     (auto simp: draw_card_from_stock_def Let_def recycle_waste_eq score_ok_def)

lemma score_set_pile_cards [simp]: "score (set_pile_cards s p cs) = score s"
  by (cases p) simp_all

lemma score_add_to_foundation [simp]: "score (add_to_foundation s i c) = score s"
  by (simp add: add_to_foundation_def)

lemma score_ok_double_click: "score_ok s \<Longrightarrow> score_ok (double_click s pos)"
proof (cases "double_click_moves s pos")
  case True
  assume ok: "score_ok s"
  show ?thesis
    by (rule score_ok_frame [OF score_ok_save_state [OF ok]])
       (use True in \<open>auto simp: double_click_moves_def double_click_def Let_def
          score_reveal_source split: option.splits\<close>)
next
  case False
  assume "score_ok s"
  moreover from False have "double_click s pos = s"
    by (auto simp: double_click_moves_def double_click_def Let_def split: option.splits)
  ultimately show ?thesis by simp
qed

lemma score_auto_round: "0 \<le> score s \<Longrightarrow> 0 \<le> score (fst (auto_round s))"
proof -
  have w: "0 \<le> score t \<Longrightarrow> 0 \<le> score (fst (auto_waste t))" for t
    by (simp add: auto_waste_def Let_def split: option.splits)
  have t: "0 \<le> score t \<Longrightarrow> 0 \<le> score (fst (auto_tableaus ts t m))" for ts t m
    by (induction ts arbitrary: m)
       (simp_all add: Let_def score_reveal_source split: option.splits)
  assume "0 \<le> score s"
  then show ?thesis by (simp add: auto_round_def split_beta w t)
qed

lemma score_ok_auto: "score_ok s \<Longrightarrow> score_ok (auto_move_to_foundation s)"
proof -
  assume ok: "score_ok s"
  have "0 \<le> score (auto_loop (save_state s))"
  proof (rule auto_loop_invariant [where P = "\<lambda>t. 0 \<le> score t"])
    show "0 \<le> score (save_state s)" using ok by (simp add: score_ok_def)
  next
    fix t t' m assume "0 \<le> score t" "auto_round t = (t', m)"
    with score_auto_round [of t] show "0 \<le> score t'" by simp
  qed
  then show ?thesis
    by (intro score_ok_frame [OF score_ok_save_state [OF ok]])
       (simp_all add: auto_move_to_foundation_def)
qed

lemma score_ok_undo: "score_ok s \<Longrightarrow> score_ok (snd (undo s))"
  by (cases "move_history s" rule: rev_cases)
     (auto simp: score_ok_def undo_def Let_def)

lemma score_ok_handle_drop:
  assumes "score_ok s" and "handle_drop s pos = Some s'"
  shows "score_ok s'"
  using assms(2)
proof (cases rule: handle_drop_cases)
  case 1
  with assms show ?thesis by simp
next
  case 2
  with assms(1) show ?thesis by (simp add: score_ok_def)
next
  case moved: (3 source target)
  have "score_ok (s\<lparr>dragging := False\<rparr>)" using assms(1) by (simp add: score_ok_def)
  from score_ok_save_state [OF this] show ?thesis unfolding moved(5)
    by (rule score_ok_frame)
       (simp_all add: score_reveal_source score_score_drop_nonneg score_ok_def
          \<open>score_ok (s\<lparr>dragging := False\<rparr>)\<close> [unfolded score_ok_def, simplified])
qed

lemma score_ok_handle_click:
  assumes "score_ok s" and "handle_click s pos = Some s'"
  shows "score_ok s'"
  using assms(2)
proof (cases rule: handle_click_cases)
  case 1
  with assms show ?thesis by simp
next
  case 2
  with assms show ?thesis by (simp add: score_ok_draw)
next
  case drag: (3 pile c)
  from start_drag_fields [OF drag(4)] assms(1) show ?thesis by (simp add: score_ok_def)
qed

lemma reachable_score_ok: "reachable s \<Longrightarrow> score_ok s"
proof (induction rule: reachable.induct)
  case (start deck s)
  then show ?case by (simp add: score_ok_def new_game_fields)
next
  case (key_n s deck s')
  then show ?case by (simp add: score_ok_def new_game_fields)
next
  case (mouse_down s pos s')
  then show ?case by (simp add: score_ok_handle_click)
next
  case (mouse_down_twice s pos)
  then show ?case by (simp add: score_ok_double_click)
next
  case (mouse_up s pos s')
  then show ?case by (simp add: score_ok_handle_drop)
next
  case (key_a s)
  then show ?case by (simp add: score_ok_auto)
next
  case (key_u s)
  then show ?case by (simp add: score_ok_undo)
qed

lemma reachable_first_deal: "reachable first_deal"
proof -
  have sh: "shuffled create_deck" by (simp add: shuffled_def)
  from new_game_succeeds [OF sh, of initial]
  have "new_game initial create_deck = Some first_deal"
    by (auto simp: first_deal_def)
  with sh show ?thesis by (rule reachable.start)
qed

lemma reachable_draw: "reachable s \<Longrightarrow> reachable (draw_card_from_stock s)"
  by (rule reachable.mouse_down [where pos = on_stock])
     (simp_all add: handle_click_def on_stock_def)

lemma reachable_draws: "reachable s \<Longrightarrow> reachable ((draw_card_from_stock ^^ n) s)"
  by (induction n) (simp_all add: reachable_draw)










lemma tableau_ok_Nil [simp]: "tableau_ok []"
  by (simp add: tableau_ok_def face_up_suffix_def)













lemma table_ok_save_state [simp]: "table_ok (save_state s) = table_ok s"
  by (simp add: table_ok_def)

lemma drag_ok_save_state [simp]: "drag_ok (save_state s) = drag_ok s"
  by (simp add: drag_ok_def)


lemma table_ok_add_score [simp]: "table_ok (add_score s n) = table_ok s"
  by (simp add: table_ok_def add_score_def)

lemma table_ok_check_win [simp]: "table_ok (check_win s) = table_ok s"
  by (simp add: table_ok_def check_win_def)

lemma drag_ok_add_score [simp]: "drag_ok (add_score s n) = drag_ok s"
  by (simp add: drag_ok_def add_score_def)

lemma drag_ok_check_win [simp]: "drag_ok (check_win s) = drag_ok s"
  by (simp add: drag_ok_def check_win_def)

lemma dragged_reveal_source [simp]: "dragged_cards (reveal_source s p) = dragged_cards s"
  by (cases p) (simp_all add: reveal_source_def add_score_def)

lemma dragged_add_to_foundation [simp]:
  "dragged_cards (add_to_foundation s i c) = dragged_cards s"
  by (simp add: add_to_foundation_def)

lemma dragged_set_pile_cards [simp]: "dragged_cards (set_pile_cards s p cs) = dragged_cards s"
  by (cases p) simp_all



lemma find_Some_set: "find P xs = Some x \<Longrightarrow> x \<in> set xs \<and> P x"
  by (induction xs) (auto split: if_splits)





text \<open>Putting cards down.\<close>

lemma set_remove_cards: "set (remove_cards n cs) \<subseteq> set cs"
proof (induction n arbitrary: cs)
  case 0
  then show ?case by simp
next
  case (Suc n)
  have "set (snd (remove_card cs)) \<subseteq> set cs"
    by (auto simp: remove_card_def dest: in_set_butlastD)
  with Suc [of "snd (remove_card cs)"] show ?case by auto
qed




lemma reveal_source_other [simp]:
  "waste (reveal_source s p) = waste s" "foundations (reveal_source s p) = foundations s"
  by (cases p; simp add: reveal_source_def add_score_def)+


lemma score_drop_table [simp]:
  "waste (score_drop s p q) = waste s" "foundations (score_drop s p q) = foundations s"
  by (simp_all add: score_drop_def add_score_def)



lemma drop_foundations:
  assumes "is_foundation target \<or> is_tableau target" and "target \<noteq> source"
  shows "cards (foundations (put_on_target (take_from_source s source c) target) i)
    = (if source = FoundationPile i
       then remove_cards (length (dragged_cards s)) (cards (foundations s i))
       else if target = FoundationPile i
       then cards (foundations s i) @ dragged_cards s
       else cards (foundations s i))"
  using assms
  by (cases source; cases target)
     (auto simp: put_on_target_def take_from_source_def add_cards_def)


lemma drag_ok_end_drag [simp]: "drag_ok (end_drag s)"
  by (simp add: end_drag_def drag_ok_def check_win_def)

lemma table_ok_end_drag [simp]: "table_ok (end_drag s) = table_ok s"
  by (simp add: end_drag_def table_ok_def check_win_def)

lemma table_ok_dragging [simp]: "table_ok (s\<lparr>dragging := b\<rparr>) = table_ok s"
  by (simp add: table_ok_def)

lemma dragged_add_score [simp]: "dragged_cards (add_score s n) = dragged_cards s"
  by (simp add: add_score_def)

lemma dragged_check_win [simp]: "dragged_cards (check_win s) = dragged_cards s"
  by (simp add: check_win_def)





text \<open>Auto-complete.\<close>

lemma auto_waste_fields [simp]:
  "dragged_cards (fst (auto_waste s)) = dragged_cards s"
  by (simp add: auto_waste_def Let_def split: option.splits)

lemma auto_tableaus_fields [simp]:
  "dragged_cards (fst (auto_tableaus ts s m)) = dragged_cards s"
  by (induction ts arbitrary: m) (simp_all add: Let_def split: option.splits)











lemma handle_event_reachable:
  "reachable s \<Longrightarrow> event_ok e \<Longrightarrow> handle_event s e = Some s' \<Longrightarrow> reachable s'"
  by (cases e) (auto intro: reachable.intros)

lemma run_reachable:
  "reachable s \<Longrightarrow> list_all event_ok es \<Longrightarrow> run s es = Some s' \<Longrightarrow> reachable s'"
proof (induction es arbitrary: s)
  case Nil
  then show ?case by simp
next
  case (Cons e es)
  from Cons.prems(3) obtain t where t: "handle_event s e = Some t" "run t es = Some s'"
    by (auto split: option.splits)
  from Cons.prems(1,2) t(1) have "reachable t" by (auto intro: handle_event_reachable)
  with Cons.prems(2) t(2) show ?case by (auto intro: Cons.IH)
qed

lemma main_reachable:
  assumes "shuffled deck" and "list_all event_ok es" and "main deck es = Some s'"
  shows "reachable s'"
proof -
  from assms(3) obtain t where t: "new_game initial deck = Some t" "run t es = Some s'"
    by (auto simp: main_def split: option.splits)
  from assms(1) t(1) have "reachable t" by (rule reachable.start)
  then show ?thesis using assms(2) t(2) by (rule run_reachable)
qed

lemma shuffled_win_deck: "shuffled win_deck"
  by code_simp


lemma won_then_undone_eval:
  "(case main win_deck (win_events @ [MouseDown on_stock, KeyU]) of
      None \<Rightarrow> False
    | Some s \<Rightarrow> \<not> won s \<and> all_foundations_full s)"
  by code_simp

lemma won_then_king_moved_eval:
  "(case main win_deck (win_events @ [MouseDown (on_foundation F1), MouseUp (on_tableau T0)]) of
      None \<Rightarrow> False
    | Some s \<Rightarrow> won s \<and> \<not> all_foundations_full s)"
  by code_simp

lemma won_then_undone_facts:
  "reachable won_then_undone \<and> \<not> won won_then_undone \<and> all_foundations_full won_then_undone"
proof -
  let ?es = "win_events @ [MouseDown on_stock, KeyU]"
  from won_then_undone_eval obtain s where
    s: "main win_deck ?es = Some s" "\<not> won s" "all_foundations_full s"
    by (auto split: option.splits)
  have "list_all event_ok ?es" by (auto simp: list_all_iff win_events_def)
  with shuffled_win_deck have "reachable s" using s(1) by (rule main_reachable)
  with s show ?thesis by (simp add: won_then_undone_def)
qed

lemma won_then_king_moved_facts:
  "reachable won_then_king_moved \<and> won won_then_king_moved
   \<and> \<not> all_foundations_full won_then_king_moved"
proof -
  let ?es = "win_events @ [MouseDown (on_foundation F1), MouseUp (on_tableau T0)]"
  from won_then_king_moved_eval obtain s where
    s: "main win_deck ?es = Some s" "won s" "\<not> all_foundations_full s"
    by (auto split: option.splits)
  have "list_all event_ok ?es" by (auto simp: list_all_iff win_events_def)
  with shuffled_win_deck have "reachable s" using s(1) by (rule main_reachable)
  with s show ?thesis by (simp add: won_then_king_moved_def)
qed

lemma won_simps [simp]:
  "won (add_score s n) = won s" "won (set_pile_cards s p cs) = won s"
  "won (add_to_foundation s i c) = won s" "won (reveal_source s p) = won s"
  "won (score_drop s p q) = won s" "won (put_on_target s p) = won s"
  "won (take_from_source s p c) = won s"
  by (cases p; simp add: add_score_def add_to_foundation_def reveal_source_def score_drop_def
      put_on_target_def take_from_source_def)+

lemma full_simps [simp]:
  "all_foundations_full (s\<lparr>won := b\<rparr>) = all_foundations_full s"
  "all_foundations_full (s\<lparr>dragged_cards := ds\<rparr>) = all_foundations_full s"
  "all_foundations_full (s\<lparr>drag_source := src\<rparr>) = all_foundations_full s"
  by (simp_all add: all_foundations_full_def)

lemma won_check_win: "won (check_win s) = (won s \<or> all_foundations_full s)"
  by (simp add: check_win_def)

lemma full_check_win [simp]: "all_foundations_full (check_win s) = all_foundations_full s"
  by (simp add: check_win_def)

lemma won_auto_round [simp]: "won (fst (auto_round s)) = won s"
proof -
  have w: "won (fst (auto_waste t)) = won t" for t
    by (simp add: auto_waste_def Let_def split: option.splits)
  have t: "won (fst (auto_tableaus ts t m)) = won t" for ts t m
    by (induction ts arbitrary: m) (simp_all add: Let_def split: option.splits)
  show ?thesis by (simp add: auto_round_def split_beta w t)
qed

lemma won_auto_loop [simp]: "won (auto_loop s) = won s"
proof (rule auto_loop_invariant [where P = "\<lambda>t. won t = won s"])
  fix t t' m assume "won t = won s" "auto_round t = (t', m)"
  with won_auto_round [of t] show "won t' = won s" by simp
qed simp

lemma won_draw [simp]: "won (draw_card_from_stock s) = won s"
  by (simp add: draw_card_from_stock_def Let_def recycle_waste_eq add_score_def)

lemma won_handle_click: "handle_click s pos = Some s' \<Longrightarrow> won s' = won s"
  by (erule handle_click_cases) (simp_all add: start_drag_fields)

lemma won_end_drag: "won (end_drag s) = (won s \<or> all_foundations_full (end_drag s))"
  by (simp add: end_drag_def won_check_win)

lemma won_handle_drop:
  assumes "dragging s" and "handle_drop s pos = Some s'"
  shows "won s' = (won s \<or> all_foundations_full s')"
  using assms(2)
proof (cases rule: handle_drop_cases)
  case 1
  with assms(1) show ?thesis by simp
next
  case 2
  then show ?thesis by (simp add: won_end_drag)
next
  case (3 source target)
  then show ?thesis by (simp add: won_end_drag)
qed

lemma won_double_click:
  "double_click_moves s pos \<Longrightarrow>
     won (double_click s pos) = (won s \<or> all_foundations_full (double_click s pos))"
  by (auto simp: double_click_moves_def double_click_def Let_def won_check_win
      split: option.splits)

lemma full_house_eval:
  "all_foundations_full full_house \<and> \<not> won full_house
   \<and> all_foundations_full (auto_move_to_foundation full_house)"
  by code_simp

lemma uniform_Nil [simp]: "uniform []"
  by (simp add: uniform_def)

lemma uniform_subset:
  assumes "uniform cs" and "set ds \<subseteq> set cs"
  shows "uniform ds"
proof (cases ds)
  case Nil
  then show ?thesis by simp
next
  case (Cons d ds')
  with assms(2) have "d \<in> set cs" by auto
  with assms show ?thesis
    by (auto simp: uniform_def list_all_iff Cons)
qed

lemma uniform_remove_cards: "uniform cs \<Longrightarrow> uniform (remove_cards n cs)"
  by (erule uniform_subset) (rule set_remove_cards)

lemma uniform_add:
  assumes "uniform cs" and "foundation_can_add f c" and "cards f = cs"
  shows "uniform (cs @ [c])"
proof (cases cs)
  case Nil
  then show ?thesis by (simp add: uniform_def)
next
  case (Cons a as)
  with assms(2,3) have "suit c = suit (last cs)"
    by (simp add: foundation_can_add_def Let_def split: if_splits)
  moreover from assms(1) Cons have "suit (last cs) = suit a"
    using last_in_set [of cs] by (auto simp: uniform_def list_all_iff)
  ultimately show ?thesis using assms(1) Cons by (simp add: uniform_def)
qed

lemma uniform_first_suit:
  "uniform (cards f) \<Longrightarrow> cards f \<noteq> [] \<Longrightarrow> first_suit f = Some (suit (last (cards f)))"
  using last_in_set [of "cards f"]
  by (cases "cards f") (auto simp: uniform_def first_suit_def list_all_iff)

lemma find_drop_target_foundation:
  "find_drop_target s pos = Some (FoundationPile i) \<Longrightarrow>
     \<exists>c. dragged_cards s = [c] \<and> foundation_can_add (foundations s i) c"
  by (auto simp: find_drop_target_def length_Suc_conv
      split: list.splits option.splits if_splits dest!: find_Some_set)

lemma accepting_foundation_Some:
  "accepting_foundation s c = Some i \<Longrightarrow> foundation_can_add (foundations s i) c"
  by (auto simp: accepting_foundation_def dest: find_Some_set)


lemma foundations_ok_frame:
  "foundations_ok s \<Longrightarrow> foundations s' = foundations s \<Longrightarrow>
   move_history s' = move_history s \<Longrightarrow> foundations_ok s'"
  by (simp add: foundations_ok_def)

lemma foundations_ok_save_state: "foundations_ok s \<Longrightarrow> foundations_ok (save_state s)"
  by (cases "move_history s")
     (auto simp: foundations_ok_def save_state_def Let_def take_snapshot_def)

lemma foundations_ok_add_to_foundation:
  assumes "foundations_ok s" and "foundation_can_add (foundations s i) c"
  shows "foundations_ok (add_to_foundation s i c)"
proof -
  from assms(1) have "uniform (cards (foundations s i))" by (simp add: foundations_ok_def)
  from uniform_add [OF this assms(2) refl] assms(1) show ?thesis
    by (simp add: foundations_ok_def add_to_foundation_def add_card_def)
qed

lemma foundations_ok_add_score [simp]: "foundations_ok (add_score s n) = foundations_ok s"
  by (simp add: foundations_ok_def add_score_def)

lemma foundations_ok_check_win [simp]: "foundations_ok (check_win s) = foundations_ok s"
  by (simp add: foundations_ok_def check_win_def)

lemma foundations_ok_reveal_source [simp]:
  "foundations_ok (reveal_source s p) = foundations_ok s"
  by (simp add: foundations_ok_def)

lemma foundations_ok_draw:
  assumes "foundations_ok s"
  shows "foundations_ok (draw_card_from_stock s)"
proof -
  have "foundations (draw_card_from_stock s) = foundations (save_state s)"
    "move_history (draw_card_from_stock s) = move_history (save_state s)"
    by (simp_all add: draw_card_from_stock_def Let_def recycle_waste_eq add_score_def)
  with foundations_ok_save_state [OF assms] show ?thesis by (rule foundations_ok_frame)
qed

lemma foundations_end_drag [simp]: "foundations (end_drag s) = foundations s"
  by (simp add: end_drag_def check_win_def)

lemma foundations_ok_handle_click:
  assumes "foundations_ok s" and "handle_click s pos = Some s'"
  shows "foundations_ok s'"
  using assms(2)
proof (cases rule: handle_click_cases)
  case 1
  with assms(1) show ?thesis by simp
next
  case 2
  with assms(1) show ?thesis by (simp add: foundations_ok_draw)
next
  case (3 pile c)
  from assms(1) start_drag_fields(6,2) [OF 3(4)] show ?thesis
    by (rule foundations_ok_frame)
qed

lemma drop_markers:
  "fsuit (foundations (put_on_target (take_from_source s source c) target) i)
     = fsuit (foundations s i)"
  by (cases source; cases target) (simp_all add: put_on_target_def take_from_source_def)

lemma foundations_ok_handle_drop:
  assumes "foundations_ok s" and "handle_drop s pos = Some s'"
  shows "foundations_ok s'"
  using assms(2)
proof (cases rule: handle_drop_cases)
  case 1
  with assms(1) show ?thesis by simp
next
  case 2
  from assms(1) show ?thesis unfolding 2(2)
    by (rule foundations_ok_frame) (simp_all add: end_drag_def check_win_def)
next
  case (3 source target)
  let ?s1 = "save_state (s\<lparr>dragging := False\<rparr>)"
  let ?p = "put_on_target (take_from_source ?s1 source (hd (dragged_cards s))) target"
  have kind: "is_foundation target \<or> is_tableau target"
    using 3(3) by (rule find_drop_target_kind)
  from assms(1) have "foundations_ok (s\<lparr>dragging := False\<rparr>)"
    by (simp add: foundations_ok_def)
  then have ok: "foundations_ok ?s1" by (rule foundations_ok_save_state)
  have "uniform (cards (foundations ?p i))" for i
  proof -
    from ok have u: "uniform (cards (foundations s i))" by (simp add: foundations_ok_def)
    have "uniform (cards (foundations s i) @ dragged_cards s)" if "target = FoundationPile i"
      using find_drop_target_foundation [OF 3(3) [unfolded that]] uniform_add [OF u _ refl]
      by auto
    with u show ?thesis
      by (simp add: drop_foundations [OF kind 3(4)] uniform_remove_cards)
  qed
  with ok have "foundations_ok ?p"
    by (simp add: foundations_ok_def drop_markers)
  then show ?thesis unfolding 3(5)
    by (rule foundations_ok_frame) simp_all
qed

lemma foundations_ok_waste_update [simp]:
  "foundations_ok (s\<lparr>waste := w\<rparr>) = foundations_ok s"
  "foundations_ok (s\<lparr>tableaus := t\<rparr>) = foundations_ok s"
  by (simp_all add: foundations_ok_def)

lemma foundations_ok_double_click:
  assumes "foundations_ok s"
  shows "foundations_ok (double_click s pos)"
proof (cases "double_click_moves s pos")
  case False
  then have "double_click s pos = s"
    by (auto simp: double_click_moves_def double_click_def Let_def split: option.splits)
  with assms show ?thesis by simp
next
  case True
  then obtain pile i where p: "pile_at pos = Some pile" "pile_cards s pile \<noteq> []"
    "pile = WastePile \<or> is_tableau pile"
    "accepting_foundation s (last (pile_cards s pile)) = Some i"
    by (auto simp: double_click_moves_def split: option.splits) (case_tac x2; simp)
  let ?c = "last (pile_cards s pile)"
  let ?s2 = "set_pile_cards (save_state s) pile (snd (remove_card (pile_cards (save_state s) pile)))"
  from p(3) have f: "foundations ?s2 = foundations s" "move_history ?s2 = move_history (save_state s)"
    by (cases pile; simp)+
  have "foundations_ok ?s2"
    using foundations_ok_save_state [OF assms] by (rule foundations_ok_frame) (simp_all add: f)
  moreover have "foundation_can_add (foundations ?s2 i) ?c"
    using accepting_foundation_Some [OF p(4)] by (simp add: f)
  ultimately have "foundations_ok (add_to_foundation ?s2 i ?c)"
    by (rule foundations_ok_add_to_foundation)
  moreover from p have "double_click s pos = check_win
      (if is_tableau pile
       then reveal_source (add_score (add_to_foundation ?s2 i ?c) SCORE_TO_FOUNDATION) pile
       else add_score (add_to_foundation ?s2 i ?c) SCORE_TO_FOUNDATION)"
    by (cases pile) (auto simp: double_click_def Let_def)
  ultimately show ?thesis by simp
qed

lemma foundations_ok_auto_waste: "foundations_ok s \<Longrightarrow> foundations_ok (fst (auto_waste s))"
  by (auto simp: auto_waste_def Let_def split: option.splits
      intro!: foundations_ok_add_to_foundation dest: accepting_foundation_Some)

lemma foundations_ok_auto_tableaus:
  "foundations_ok s \<Longrightarrow> foundations_ok (fst (auto_tableaus ts s m))"
  by (induction ts arbitrary: m)
     (auto simp: Let_def split: option.splits
        intro!: foundations_ok_add_to_foundation dest: accepting_foundation_Some)

lemma foundations_ok_auto:
  assumes "foundations_ok s"
  shows "foundations_ok (auto_move_to_foundation s)"
proof -
  have "foundations_ok (auto_loop (save_state s))"
  proof (rule auto_loop_invariant [where P = foundations_ok])
    show "foundations_ok (save_state s)" using assms by (rule foundations_ok_save_state)
  next
    fix t t' m assume "foundations_ok t" "auto_round t = (t', m)"
    with foundations_ok_auto_tableaus [OF foundations_ok_auto_waste, of t tidxs "snd (auto_waste t)"]
    show "foundations_ok t'" by (simp add: auto_round_def split_beta)
  qed
  then show ?thesis by (simp add: auto_move_to_foundation_def)
qed

lemma foundations_ok_undo: "foundations_ok s \<Longrightarrow> foundations_ok (snd (undo s))"
  by (cases "move_history s" rule: rev_cases)
     (auto simp: foundations_ok_def undo_def Let_def)

lemma foundations_ok_new_game:
  assumes "\<forall>i. fsuit (foundations s i) = Some (SUITS ! fnum i)" and "new_game s deck = Some s'"
  shows "foundations_ok s'"
  using assms(1) new_game_fields(2,5,6) [OF assms(2)] by (simp add: foundations_ok_def)

lemma reachable_foundations_ok: "reachable s \<Longrightarrow> foundations_ok s"
proof (induction rule: reachable.induct)
  case (start deck s)
  have "\<forall>i. fsuit (foundations initial i) = Some (SUITS ! fnum i)"
    by (simp add: initial_def setup_foundation_def)
  then show ?case using start(2) by (rule foundations_ok_new_game)
next
  case (key_n s deck s')
  from key_n.IH have "\<forall>i. fsuit (foundations s i) = Some (SUITS ! fnum i)"
    by (simp add: foundations_ok_def)
  then show ?case using key_n.hyps(3) by (rule foundations_ok_new_game)
next
  case (mouse_down s pos s')
  then show ?case by (simp add: foundations_ok_handle_click)
next
  case (mouse_down_twice s pos)
  then show ?case by (simp add: foundations_ok_double_click)
next
  case (mouse_up s pos s')
  then show ?case by (simp add: foundations_ok_handle_drop)
next
  case (key_a s)
  then show ?case by (simp add: foundations_ok_auto)
next
  case (key_u s)
  then show ?case by (simp add: foundations_ok_undo)
qed


lemma ace_on_hearts_eval:
  "handle_click first_deal (on_tableau T5) \<noteq> None
   \<and> handle_drop (the (handle_click first_deal (on_tableau T5))) (on_foundation F0) \<noteq> None
   \<and> cards (foundations ace_on_hearts F0) = [shown Clubs Ace]"
  by code_simp

lemma reachable_ace_on_hearts: "reachable ace_on_hearts"
proof -
  from ace_on_hearts_eval obtain x where x: "handle_click first_deal (on_tableau T5) = Some x"
    by auto
  with ace_on_hearts_eval have "handle_drop x (on_foundation F0) = Some ace_on_hearts"
    by (auto simp: ace_on_hearts_def)
  with reachable.mouse_down [OF reachable_first_deal x] show ?thesis
    by (rule reachable.mouse_up)
qed

lemma handle_click_total: "\<exists>s'. handle_click s pos = Some s'"
  by (auto simp: handle_click_def top_card_def split: option.splits pile_ref.splits prod.splits)

lemma drag_wf_frame:
  "drag_wf s \<Longrightarrow> dragging s' = dragging s \<Longrightarrow> drag_source s' = drag_source s \<Longrightarrow> drag_wf s'"
  by (simp add: drag_wf_def)

lemma drag_fields_auto_round [simp]:
  "dragging (fst (auto_round s)) = dragging s" "drag_source (fst (auto_round s)) = drag_source s"
proof -
  have r: "dragging (reveal_source t p) = dragging t" "drag_source (reveal_source t p) = drag_source t"
    for t p by (cases p; simp add: reveal_source_def add_score_def)+
  have w: "dragging (fst (auto_waste t)) = dragging t"
    "drag_source (fst (auto_waste t)) = drag_source t" for t
    by (simp_all add: auto_waste_def Let_def add_score_def add_to_foundation_def
        split: option.splits)
  have t: "dragging (fst (auto_tableaus ts t m)) = dragging t
      \<and> drag_source (fst (auto_tableaus ts t m)) = drag_source t" for ts t m
    by (induction ts arbitrary: m)
       (simp_all add: Let_def r add_score_def add_to_foundation_def split: option.splits)
  show "dragging (fst (auto_round s)) = dragging s" "drag_source (fst (auto_round s)) = drag_source s"
    by (simp_all add: auto_round_def split_beta w t)
qed

lemma drag_wf_auto: "drag_wf s \<Longrightarrow> drag_wf (auto_move_to_foundation s)"
proof -
  assume a: "drag_wf s"
  have "drag_wf (auto_loop (save_state s))"
  proof (rule auto_loop_invariant [where P = drag_wf])
    show "drag_wf (save_state s)" using a by (simp add: drag_wf_def)
  next
    fix t t' m assume "drag_wf t" "auto_round t = (t', m)"
    with drag_fields_auto_round [of t] show "drag_wf t'" by (simp add: drag_wf_def)
  qed
  then show ?thesis by (simp add: auto_move_to_foundation_def drag_wf_def check_win_def)
qed

lemma drag_wf_start_drag: "drag_wf s \<Longrightarrow> start_drag s p c = Some s' \<Longrightarrow> drag_wf s'"
  by (cases p)
     (auto simp: drag_wf_def begin_drag_def Let_def split: option.splits prod.splits if_splits)

lemma drag_wf_draw: "drag_wf s \<Longrightarrow> drag_wf (draw_card_from_stock s)"
  by (simp add: drag_wf_def draw_card_from_stock_def Let_def recycle_waste_eq add_score_def)

lemma drag_wf_handle_click: "drag_wf s \<Longrightarrow> handle_click s pos = Some s' \<Longrightarrow> drag_wf s'"
  by (erule handle_click_cases) (auto simp: drag_wf_draw drag_wf_start_drag)

lemma dragging_simps [simp]:
  "dragging (reveal_source s p) = dragging s" "dragging (score_drop s p q) = dragging s"
  "dragging (put_on_target s p) = dragging s" "dragging (take_from_source s p c) = dragging s"
  "dragging (end_drag s) = dragging s"
  by (cases p; simp add: reveal_source_def score_drop_def put_on_target_def
      take_from_source_def add_score_def end_drag_def check_win_def)+

lemma drag_wf_handle_drop: "handle_drop s pos = Some s' \<Longrightarrow> drag_wf s \<Longrightarrow> drag_wf s'"
  by (erule handle_drop_cases) (simp_all add: drag_wf_def)

lemma drag_wf_double_click: "drag_wf s \<Longrightarrow> drag_wf (double_click s pos)"
proof -
  have r: "dragging (reveal_source t p) = dragging t" "drag_source (reveal_source t p) = drag_source t"
    for t p by (cases p; simp add: reveal_source_def add_score_def)+
  have p: "dragging (set_pile_cards t q cs) = dragging t"
    "drag_source (set_pile_cards t q cs) = drag_source t" for t q cs
    by (cases q; simp)+
  assume "drag_wf s"
  then show ?thesis
    by (auto simp: drag_wf_def double_click_def Let_def r p add_score_def add_to_foundation_def
        check_win_def split: option.splits)
qed

lemma reachable_drag_wf: "reachable s \<Longrightarrow> drag_wf s"
proof (induction rule: reachable.induct)
  case (start deck s)
  then show ?case by (simp add: drag_wf_def new_game_fields initial_def)
next
  case (key_n s deck s')
  then show ?case by (simp add: drag_wf_def new_game_fields)
next
  case (mouse_down s pos s')
  then show ?case by (simp add: drag_wf_handle_click)
next
  case (mouse_down_twice s pos)
  then show ?case by (simp add: drag_wf_double_click)
next
  case (mouse_up s pos s')
  then show ?case by (simp add: drag_wf_handle_drop)
next
  case (key_a s)
  then show ?case by (simp add: drag_wf_auto)
next
  case (key_u s)
  then show ?case by (auto simp: drag_wf_def undo_def Let_def)
qed

text \<open>No handler raises in a reachable state.\<close>

lemma handle_drop_total:
  assumes "reachable s"
  shows "\<exists>s'. handle_drop s pos = Some s'"
proof (cases "dragging s")
  case False
  then show ?thesis by (simp add: handle_drop_def)
next
  case True
  with reachable_drag_wf [OF assms] obtain source where src: "drag_source s = Some source"
    by (auto simp: drag_wf_def)
  show ?thesis
  proof (cases "find_drop_target s pos")
    case None
    with True src show ?thesis by (simp add: handle_drop_def Let_def)
  next
    case (Some target)
    from find_drop_target_dragged [OF Some] obtain c cs where "dragged_cards s = c # cs"
      by (cases "dragged_cards s") auto
    with True src Some show ?thesis by (simp add: handle_drop_def Let_def)
  qed
qed

lemma handle_event_total:
  "reachable s \<Longrightarrow> event_ok e \<Longrightarrow> \<exists>s'. handle_event s e = Some s'"
  by (cases e) (simp_all add: handle_click_total handle_drop_total new_game_succeeds)

section \<open>Pile legality\<close>

text \<open>
  Claim C5. A foundation without cards accepts a card exactly when its rank is the ace. A
  foundation with cards accepts a card exactly when the card has the suit of the pile
  and the value of the top card plus one. The code reads the suit of the pile off the
  top card; in every reachable state that is the suit of the first card placed on the
  pile (\<open>first_suit\<close>), since all cards of a foundation have one suit.
\<close>

theorem foundation_can_add_spec:
  "foundation_can_add f c =
     (if cards f = [] then rank c = Ace
      else suit c = suit (last (cards f)) \<and> card_value c = card_value (last (cards f)) + 1)
   \<and> (reachable s \<longrightarrow>
        foundation_can_add (foundations s i) c =
          (if cards (foundations s i) = [] then rank c = Ace
           else first_suit (foundations s i) = Some (suit c)
                \<and> card_value c = card_value (last (cards (foundations s i))) + 1))"
proof -
  have "first_suit (foundations s i) = Some (suit (last (cards (foundations s i))))"
    if "reachable s" "cards (foundations s i) \<noteq> []"
    using reachable_foundations_ok [OF that(1)] that(2)
    by (intro uniform_first_suit) (simp_all add: foundations_ok_def)
  then show ?thesis
    by (auto simp: foundation_can_add_def Let_def)
qed

theorem foundation_can_add_spec_witness:
  "reachable ace_on_hearts
   \<and> cards (foundations ace_on_hearts F0) = [shown Clubs Ace]
   \<and> first_suit (foundations ace_on_hearts F0) = Some Clubs
   \<and> foundation_can_add (foundations ace_on_hearts F0) (shown Clubs Two)
   \<and> \<not> foundation_can_add (foundations ace_on_hearts F0) (shown Hearts Two)
   \<and> \<not> foundation_can_add (foundations ace_on_hearts F0) (shown Clubs Three)"
  using foundation_can_add_spec [of "foundations ace_on_hearts F0" "shown Clubs Two" ace_on_hearts F0]
    foundation_can_add_spec [of "foundations ace_on_hearts F0" "shown Hearts Two" ace_on_hearts F0]
    foundation_can_add_spec [of "foundations ace_on_hearts F0" "shown Clubs Three" ace_on_hearts F0]
    reachable_ace_on_hearts ace_on_hearts_eval
  by (simp add: first_suit_def shown_def card_value_def)

text \<open>
  Claim C6. An empty tableau accepts a card exactly when its rank is the king; a tableau
  with cards accepts a card exactly when its top card is face up, the colours differ and
  the card's value is the top card's value minus one; a face-down top card accepts nothing.
\<close>

theorem tableau_can_add_spec:
  "tableau_can_add cs c =
     (if cs = [] then rank c = King
      else face_up (last cs) \<and> card_color c \<noteq> card_color (last cs)
           \<and> card_value c = card_value (last cs) - 1)"
  by (simp add: tableau_can_add_def Let_def)


text \<open>
  Claim C10. An empty foundation accepts every ace, whatever suit the pile was constructed
  with and whatever the ace's suit: \<open>foundation_can_add\<close> returns a truth value only, and
  that value does not depend on the field \<open>fsuit\<close>. The field keeps the value
  \<^verbatim>\<open>setup_piles\<close> gave it in every reachable state.
\<close>

theorem empty_foundation_takes_any_ace:
  "foundation_can_add \<lparr>cards = [], fsuit = marker\<rparr> \<lparr>suit = s, rank = Ace, face_up = up\<rparr>
   \<and> foundation_can_add (f\<lparr>fsuit := marker\<rparr>) c = foundation_can_add f c
   \<and> (reachable g \<longrightarrow> fsuit (foundations g i) = Some (SUITS ! fnum i))"
  using reachable_foundations_ok [of g]
  by (auto simp: foundation_can_add_def foundations_ok_def)

theorem empty_foundation_takes_any_ace_witness:
  "reachable ace_on_hearts
   \<and> fsuit (foundations ace_on_hearts F0) = Some Hearts
   \<and> cards (foundations ace_on_hearts F0) = [shown Clubs Ace]
   \<and> foundation_can_add \<lparr>cards = [], fsuit = Some Hearts\<rparr> (shown Clubs Ace)"
  using empty_foundation_takes_any_ace [where marker = "Some Hearts" and s = Clubs and up = True
      and f = "foundations ace_on_hearts F0" and c = "shown Clubs Ace"
      and g = ace_on_hearts and i = F0]
    reachable_ace_on_hearts ace_on_hearts_eval
  by (simp add: SUITS_def shown_def)


section \<open>Stock and waste\<close>

text \<open>
  Claim C4. With an empty stock and a waste that holds cards, \<open>draw_card_from_stock\<close>
  recycles: the waste is empty afterwards, the stock holds the former waste cards face
  down in reversed order, and the score has dropped by 20 but not below 0. Drawing as
  many times again as the waste had cards puts the same cards back on the waste in their
  former order, face up.
\<close>

theorem draw_card_from_stock_recycle:
  assumes "stock s = []" and "waste s \<noteq> []"
  shows "waste (draw_card_from_stock s) = []
    \<and> stock (draw_card_from_stock s) = map (\<lambda>c. c\<lparr>face_up := False\<rparr>) (rev (waste s))
    \<and> score (draw_card_from_stock s) = max 0 (score s - 20)
    \<and> waste ((draw_card_from_stock ^^ length (waste s)) (draw_card_from_stock s))
        = map (\<lambda>c. c\<lparr>face_up := True\<rparr>) (waste s)"
proof -
  let ?s' = "draw_card_from_stock s"
  from assms have w: "waste ?s' = []"
    and st: "stock ?s' = map (\<lambda>c. c\<lparr>face_up := False\<rparr>) (rev (waste s))"
    and sc: "score ?s' = max 0 (score s - 20)"
    by (simp_all add: draw_card_from_stock_def Let_def recycle_waste_eq add_score_def
        SCORE_RECYCLE_WASTE_def)
  from draw_all [OF st] w
  have "waste ((draw_card_from_stock ^^ length (waste s)) ?s')
          = map (\<lambda>c. c\<lparr>face_up := True\<rparr>) (waste s)"
    by (simp add: rev_map o_def)
  with w st sc show ?thesis by simp
qed

theorem draw_card_from_stock_recycle_witness:
  "stock example_recycle = [] \<and> waste example_recycle \<noteq> []
   \<and> waste (draw_card_from_stock example_recycle) = []
   \<and> stock (draw_card_from_stock example_recycle)
       = [\<lparr>suit = Spades, rank = Nine, face_up = False\<rparr>,
          \<lparr>suit = Clubs, rank = Two, face_up = False\<rparr>,
          \<lparr>suit = Hearts, rank = Queen, face_up = False\<rparr>]
   \<and> score (draw_card_from_stock example_recycle) = 0"
  using draw_card_from_stock_recycle [of example_recycle]
  by (simp add: example_recycle_def initial_def)

section \<open>The deal\<close>

text \<open>
  Claim C7. \<open>new_game\<close> on a shuffled deck succeeds, and in the state it returns tableau
  \<open>j\<close> (counted from 0) holds \<open>j + 1\<close> cards of which only the top one is face up, the
  stock holds 24 cards, all face down, the waste and the four foundations are empty, the
  score is 0, the win flag is off and the undo history is empty.
\<close>

theorem new_game_deal:
  assumes "shuffled deck"
  shows "\<exists>s'. new_game s deck = Some s'
    \<and> (\<forall>j. length (tableaus s' j) = tnum j + 1
           \<and> map face_up (tableaus s' j) = replicate (tnum j) False @ [True])
    \<and> map face_up (stock s') = replicate 24 False
    \<and> waste s' = [] \<and> (\<forall>i. cards (foundations s' i) = [])
    \<and> score s' = 0 \<and> \<not> won s' \<and> move_history s' = []"
proof -
  from assms have len: "length deck = 52" by (rule shuffled_length)
  then have "length deal_order \<le> length deck" by (simp add: length_deal_order)
  from deal_tableaus_faces [OF this, of "\<lambda>j. []"] obtain tabs' where
    d: "deal_tableaus deal_order deck (\<lambda>j. []) = Some (take 24 deck, tabs')"
    and f: "\<forall>j. map face_up (tabs' j) = replicate (tnum j) False @ [True]"
    by (auto simp: len length_deal_order deal_order_faces)
  have l: "length (tabs' j) = tnum j + 1" for j
    using f [rule_format, of j, THEN arg_cong, of length] by simp
  have "map face_up (deal_stock (take 24 deck) []) = replicate 24 False"
    by (simp add: deal_stock_eq o_def len map_replicate_const)
  with d f l show ?thesis
    by (simp add: new_game_def)
qed

theorem new_game_deal_witness:
  "shuffled create_deck \<and> (\<exists>s'. new_game initial create_deck = Some s'
    \<and> (\<forall>j. length (tableaus s' j) = tnum j + 1
           \<and> map face_up (tableaus s' j) = replicate (tnum j) False @ [True])
    \<and> map face_up (stock s') = replicate 24 False
    \<and> waste s' = [] \<and> (\<forall>i. cards (foundations s' i) = [])
    \<and> score s' = 0 \<and> \<not> won s' \<and> move_history s' = [])"
  using new_game_deal [of create_deck initial] by (simp add: shuffled_def)


section \<open>Moves and their score\<close>




section \<open>Undo\<close>

text \<open>
  Claim C1. After a stock draw, an auto-complete run, a double-click move or a drop that
  is carried out, \<open>undo\<close> returns true and the stock, the waste, every foundation, every
  tableau (cards, order and faces) and the score are what they were before the move; for
  a drag and drop this is the table before the press that started the drag.
\<close>

theorem undo_round_trip:
  "undo_restores s (draw_card_from_stock s)
   \<and> undo_restores s (auto_move_to_foundation s)
   \<and> (double_click_moves s pos \<longrightarrow> undo_restores s (double_click s pos))
   \<and> (drop_moves d pos' \<longrightarrow> (\<exists>d'. handle_drop d pos' = Some d' \<and> undo_restores d d'))
   \<and> (pile_at pos'' \<noteq> Some StockPile \<and> handle_click s pos'' = Some d \<and> drop_moves d pos'
        \<longrightarrow> (\<exists>d'. handle_drop d pos' = Some d' \<and> undo_restores s d'))"
proof -
  have "\<exists>d'. handle_drop d pos' = Some d' \<and> undo_restores s d'"
    if "pile_at pos'' \<noteq> Some StockPile" "handle_click s pos'' = Some d" "drop_moves d pos'"
  proof -
    from saved_handle_drop [OF that(3)] obtain d' where
      d: "handle_drop d pos' = Some d'" "saved d d'" by blast
    from table_handle_click [OF that(1,2)] d(2) have "saved s d'"
      by (simp add: saved_def)
    with d(1) show ?thesis by (auto intro: saved_undo)
  qed
  then show ?thesis
    using saved_handle_drop [of d pos']
    by (auto intro!: saved_undo saved_draw saved_auto saved_double_click)
qed

theorem undo_round_trip_witness:
  "double_click_moves example_table on_first_tableau
   \<and> pile_at on_first_tableau \<noteq> Some StockPile
   \<and> handle_click example_table on_first_tableau = Some example_drag
   \<and> drop_moves example_drag over_last_foundation
   \<and> undo_restores example_table (draw_card_from_stock example_table)
   \<and> undo_restores example_table (auto_move_to_foundation example_table)
   \<and> undo_restores example_table (double_click example_table on_first_tableau)
   \<and> (\<exists>d'. handle_drop example_drag over_last_foundation = Some d'
         \<and> undo_restores example_drag d')
   \<and> (\<exists>d'. handle_drop example_drag over_last_foundation = Some d'
         \<and> undo_restores example_table d')"
proof -
  have "pile_at on_first_tableau \<noteq> Some StockPile"
    by (simp add: on_first_tableau_def)
  with example_press example_double_click example_drop
    undo_round_trip [of example_table on_first_tableau example_drag over_last_foundation
      on_first_tableau]
  show ?thesis by simp
qed



section \<open>The score\<close>

text \<open>
  Claim C8. In every reachable state the score is at least 0: no sequence of clicks,
  drops, double clicks, auto-complete runs, undos and new games takes it below.
\<close>

theorem score_never_negative: "reachable s \<Longrightarrow> 0 \<le> score s"
  using reachable_score_ok [of s] by (simp add: score_ok_def)

theorem score_never_negative_witness:
  "reachable after_recycle \<and> 0 \<le> score after_recycle"
  using score_never_negative [of after_recycle] reachable_draws [OF reachable_first_deal, of 25]
  by (simp add: after_recycle_def)



section \<open>Tableau runs\<close>




section \<open>The win flag\<close>

text \<open>
  Claim C3 says that in every reachable state the win flag is set if and only if all four
  foundations hold 13 cards. Both directions fail. After a won game, a click on the empty
  stock followed by an undo leaves four full foundations and the flag off; and after a
  won game the king of diamonds can be dragged from its foundation to an empty tableau,
  which leaves the flag on over a foundation of 12 cards.
\<close>

theorem win_flag_not_iff_foundations_full:
  "reachable won_then_undone \<and> \<not> won won_then_undone \<and> all_foundations_full won_then_undone
   \<and> reachable won_then_king_moved \<and> won won_then_king_moved
   \<and> \<not> all_foundations_full won_then_king_moved"
  using won_then_undone_facts won_then_king_moved_facts by simp

text \<open>
  Claim C3 as amended. \<open>new_game\<close> and every undo that returns true leave the flag off.
  \<open>check_win\<close> sets the flag when all four foundations hold 13 cards and leaves it as it
  is otherwise; it ends every auto-complete run, every release of a drag and every
  double-click move, so after these the flag is on exactly when it was on before or the
  foundations are full now. A press, a stock draw and an undo on an empty history do
  not change the flag.
\<close>

theorem win_flag:
  "(new_game s deck = Some s' \<longrightarrow> \<not> won s')
   \<and> (fst (undo u) \<longrightarrow> \<not> won (snd (undo u)))
   \<and> won (check_win a) = (won a \<or> all_foundations_full a)
   \<and> won (auto_move_to_foundation a)
       = (won a \<or> all_foundations_full (auto_move_to_foundation a))
   \<and> (dragging d \<and> handle_drop d pos = Some d'
        \<longrightarrow> won d' = (won d \<or> all_foundations_full d'))
   \<and> (double_click_moves s pos' \<longrightarrow>
        won (double_click s pos') = (won s \<or> all_foundations_full (double_click s pos')))
   \<and> (handle_click s pos'' = Some c \<longrightarrow> won c = won s)
   \<and> won (draw_card_from_stock s) = won s
   \<and> (\<not> fst (undo s) \<longrightarrow> snd (undo s) = s)"
  by (auto simp: new_game_fields won_handle_drop won_double_click won_handle_click
      won_check_win auto_move_to_foundation_def undo_def Let_def)


theorem win_flag_witness:
  "new_game example_table create_deck = Some (the (new_game example_table create_deck))
   \<and> \<not> won (the (new_game example_table create_deck))
   \<and> fst (undo (draw_card_from_stock example_table))
   \<and> \<not> won (snd (undo (draw_card_from_stock example_table)))
   \<and> all_foundations_full full_house \<and> \<not> won full_house
   \<and> won (check_win full_house) \<and> won (auto_move_to_foundation full_house)
   \<and> dragging example_drag
   \<and> handle_drop example_drag over_last_foundation
       = Some (the (handle_drop example_drag over_last_foundation))
   \<and> won (the (handle_drop example_drag over_last_foundation))
       = (won example_drag
          \<or> all_foundations_full (the (handle_drop example_drag over_last_foundation)))
   \<and> double_click_moves example_table on_first_tableau
   \<and> won (double_click example_table on_first_tableau)
       = (won example_table
          \<or> all_foundations_full (double_click example_table on_first_tableau))
   \<and> handle_click example_table on_first_tableau = Some example_drag
   \<and> won example_drag = won example_table
   \<and> \<not> fst (undo example_table) \<and> snd (undo example_table) = example_table"
proof -
  have n: "new_game example_table create_deck = Some (the (new_game example_table create_deck))"
    using new_game_succeeds [of create_deck example_table] by (auto simp: shuffled_def)
  have u: "fst (undo (draw_card_from_stock example_table))"
    using saved_undo [OF saved_draw, of example_table] by (simp add: undo_restores_def)
  have d: "dragging example_drag" by (simp add: example_drag_def)
  have h: "handle_drop example_drag over_last_foundation
            = Some (the (handle_drop example_drag over_last_foundation))"
    using saved_handle_drop [OF example_drop] by auto
  have e: "\<not> fst (undo example_table)"
    by (simp add: undo_def example_table_def initial_def)
  from win_flag [where s = example_table and deck = create_deck
      and s' = "the (new_game example_table create_deck)"
      and u = "draw_card_from_stock example_table" and a = full_house
      and d = example_drag and pos = over_last_foundation
      and d' = "the (handle_drop example_drag over_last_foundation)"
      and pos' = on_first_tableau and pos'' = on_first_tableau and c = example_drag]
    n u d h e example_double_click example_press full_house_eval
  show ?thesis by simp
qed


end
